theory Spec2Isabelle
  imports Complex_Main
begin

section \<open>Python values used by get\_rid\_of\_dup.py\<close>

text \<open>
  Strings are lists of characters; a character stands for the code point of the same
  number (0 to 255). Python dictionaries keep insertion order and the order decides the
  deletion queue, so a dictionary is an association list: assigning to a key that is
  present replaces the value in place, assigning to a new key appends the entry.
\<close>

type_synonym digest = string

datatype error = ValueError | KeyError | OSError | EOFError | TypeError

fun dict_set :: "'k \<Rightarrow> 'v \<Rightarrow> ('k \<times> 'v) list \<Rightarrow> ('k \<times> 'v) list" where
  "dict_set k v [] = [(k, v)]"
| "dict_set k v ((k', v') # kvs) =
     (if k' = k then (k, v) # kvs else (k', v') # dict_set k v kvs)"

text \<open>
  The string methods the program calls, on code points below 256. \<^verbatim>\<open>str.strip\<close> removes
  the white space of \<^verbatim>\<open>str.isspace\<close> at both ends; \<^verbatim>\<open>str.split("\t")\<close> cuts at every tab
  and always returns at least one field; \<^verbatim>\<open>str.lower\<close> maps the upper-case letters;
  \<^verbatim>\<open>str.isdigit\<close> accepts the ten decimal digits and the superscripts one, two and three,
  which \<^verbatim>\<open>int\<close> rejects with ValueError. (The limit that recent interpreters put on the
  number of digits \<^verbatim>\<open>int\<close> converts is not modelled.)
\<close>

definition is_space :: "char \<Rightarrow> bool" where
  "is_space c =
     (let n = (of_char c :: nat)
      in (9 \<le> n \<and> n \<le> 13) \<or> (28 \<le> n \<and> n \<le> 32) \<or> n = 133 \<or> n = 160)"

definition strip :: "string \<Rightarrow> string" where
  "strip s = rev (dropWhile is_space (rev (dropWhile is_space s)))"

fun split_tab :: "string \<Rightarrow> string list" where
  "split_tab [] = [[]]"
| "split_tab (c # cs) =
     (if c = CHR 0x09 then [] # split_tab cs
      else (case split_tab cs of [] \<Rightarrow> [[c]] | w # ws \<Rightarrow> (c # w) # ws))"

definition lower_char :: "char \<Rightarrow> char" where
  "lower_char c =
     (let n = (of_char c :: nat)
      in if (65 \<le> n \<and> n \<le> 90) \<or> (192 \<le> n \<and> n \<le> 222 \<and> n \<noteq> 215)
         then char_of (n + 32) else c)"

definition lower :: "string \<Rightarrow> string" where
  "lower s = map lower_char s"

definition is_ascii_digit :: "char \<Rightarrow> bool" where
  "is_ascii_digit c = (let n = (of_char c :: nat) in 48 \<le> n \<and> n \<le> 57)"

definition isdigit :: "string \<Rightarrow> bool" where
  "isdigit s =
     (s \<noteq> [] \<and>
      list_all (\<lambda>c. is_ascii_digit c \<or> of_char c = (178::nat) \<or> of_char c = (179::nat)
                     \<or> of_char c = (185::nat)) s)"

definition py_int :: "string \<Rightarrow> error + int" where
  "py_int s =
     (if s \<noteq> [] \<and> list_all is_ascii_digit s
      then Inr (foldl (\<lambda>a c. 10 * a + (int (of_char c) - 48)) 0 s)
      else Inl ValueError)"

text \<open>
  A file entry is the dictionary \<^verbatim>\<open>{"path": rel_path, "abs_path": abs_path}\<close> built by the
  digesting passes, or \<^verbatim>\<open>{"path": path}\<close> built by \<^verbatim>\<open>load_checksums\<close>; the second key is
  therefore optional.
\<close>

record file_info =
  path :: string
  abs_path :: "string option"

text \<open>
  The value stored under a digest of the comparison table is an entry dictionary in
  \<^verbatim>\<open>calculate_checksums\<close> and a list of entry dictionaries in \<^verbatim>\<open>load_checksums\<close>;
  \<^verbatim>\<open>summarize_duplicates\<close> and \<^verbatim>\<open>display_summary\<close> apply \<^verbatim>\<open>len\<close> to whichever they get.
\<close>

datatype dup_value = Rec file_info | Lst "file_info list"

fun py_len :: "dup_value \<Rightarrow> int" where
  "py_len (Rec r) = (case abs_path r of None \<Rightarrow> 1 | Some _ \<Rightarrow> 2)"
| "py_len (Lst l) = int (length l)"

record dup_group =
  base :: file_info
  duplicates :: dup_value

record sd_group =
  original :: file_info
  sd_duplicates :: "file_info list"

section \<open>Digesting a tree\<close>

text \<open>
  \<^verbatim>\<open>get_all_files\<close> with \<^verbatim>\<open>os.path.relpath\<close> and \<^verbatim>\<open>os.path.abspath\<close> is the walk of a tree: it
  is taken as the list of pairs (relative path, absolute path) in walk order. The disk maps
  an absolute path to the bytes of the file, \<open>None\<close> when the file cannot be opened, and
  \<open>xxh\<close> is the xxhash64 digest of a byte string.
\<close>

type_synonym walked = "string \<times> string"

definition compute_xxhash64 ::
  "(string \<Rightarrow> string option) \<Rightarrow> (string \<Rightarrow> digest) \<Rightarrow> string \<Rightarrow> error + digest" where
  "compute_xxhash64 disk xxh file_path =
     (case disk file_path of None \<Rightarrow> Inl OSError | Some bytes \<Rightarrow> Inr (xxh bytes))"

text \<open>
  The choice between a stored digest and a computed one, the same in the three digesting
  loops: \<^verbatim>\<open>if skip_existing and rel_path in existing: checksum = existing[rel_path]\<close>, else
  \<^verbatim>\<open>checksum = compute_xxhash64(file_path)\<close>. \<open>hashes_file\<close> tells when the second branch
  runs; the loops collect the files hashed there.
\<close>

definition hashes_file :: "bool \<Rightarrow> (string \<times> digest) list \<Rightarrow> walked \<Rightarrow> bool" where
  "hashes_file skip_existing existing f =
     (\<not> (skip_existing \<and> map_of existing (fst f) \<noteq> None))"

definition file_checksum ::
  "(string \<Rightarrow> string option) \<Rightarrow> (string \<Rightarrow> digest) \<Rightarrow> bool \<Rightarrow> (string \<times> digest) list \<Rightarrow>
   walked \<Rightarrow> error + digest" where
  "file_checksum disk xxh skip_existing existing f =
     (case (if skip_existing then map_of existing (fst f) else None) of
        Some checksum \<Rightarrow> Inr checksum
      | None \<Rightarrow> compute_xxhash64 disk xxh (snd f))"

definition entry_of :: "walked \<Rightarrow> file_info" where
  "entry_of f = \<lparr>path = fst f, abs_path = Some (snd f)\<rparr>"

text \<open>One loop of \<^verbatim>\<open>calculate_checksums\<close>: \<^verbatim>\<open>table[checksum] = {...}\<close> for every file.\<close>

fun checksum_pass ::
  "(string \<Rightarrow> string option) \<Rightarrow> (string \<Rightarrow> digest) \<Rightarrow> bool \<Rightarrow> (string \<times> digest) list \<Rightarrow>
   walked list \<Rightarrow> (digest \<times> file_info) list \<times> string list \<Rightarrow>
   error + ((digest \<times> file_info) list \<times> string list)" where
  "checksum_pass disk xxh skip_existing existing [] acc = Inr acc"
| "checksum_pass disk xxh skip_existing existing (f # fs) acc =
     (case file_checksum disk xxh skip_existing existing f of
        Inl e \<Rightarrow> Inl e
      | Inr checksum \<Rightarrow>
          checksum_pass disk xxh skip_existing existing fs
            (dict_set checksum (entry_of f) (fst acc),
             if hashes_file skip_existing existing f then snd acc @ [snd f] else snd acc))"

text \<open>The loop of \<^verbatim>\<open>calculate_checksums_single_dir\<close>.\<close>

definition sd_insert :: "digest \<Rightarrow> walked \<Rightarrow> (digest \<times> sd_group) list \<Rightarrow> (digest \<times> sd_group) list" where
  "sd_insert checksum f checksums =
     (case map_of checksums checksum of
        Some g \<Rightarrow>
          dict_set checksum (g\<lparr>sd_duplicates := sd_duplicates g @ [entry_of f]\<rparr>) checksums
      | None \<Rightarrow>
          dict_set checksum \<lparr>original = entry_of f, sd_duplicates = []\<rparr> checksums)"

fun sd_pass ::
  "(string \<Rightarrow> string option) \<Rightarrow> (string \<Rightarrow> digest) \<Rightarrow> bool \<Rightarrow> (string \<times> digest) list \<Rightarrow>
   walked list \<Rightarrow> (digest \<times> sd_group) list \<times> string list \<Rightarrow>
   error + ((digest \<times> sd_group) list \<times> string list)" where
  "sd_pass disk xxh skip_existing existing [] acc = Inr acc"
| "sd_pass disk xxh skip_existing existing (f # fs) acc =
     (case file_checksum disk xxh skip_existing existing f of
        Inl e \<Rightarrow> Inl e
      | Inr checksum \<Rightarrow>
          sd_pass disk xxh skip_existing existing fs
            (sd_insert checksum f (fst acc),
             if hashes_file skip_existing existing f then snd acc @ [snd f] else snd acc))"

section \<open>The persisted checksum file\<close>

text \<open>
  A checksum file is the list of its lines, as \<^verbatim>\<open>for line in f\<close> yields them (each with
  its line break) and as \<^verbatim>\<open>f.write\<close> emits them, one call per line. \<open>None\<close> stands
  for a file that does not exist.
\<close>

record existing_checksums =
  BASE :: "(string \<times> digest) list"
  OTHER :: "(string \<times> digest) list"

text \<open>
  \<^verbatim>\<open>load_existing_checksums\<close> has no handler: a line that does not unpack into three
  fields raises ValueError, a first field other than BASE or OTHER raises KeyError.
\<close>

fun load_existing_loop :: "string list \<Rightarrow> existing_checksums \<Rightarrow> error + existing_checksums" where
  "load_existing_loop [] acc = Inr acc"
| "load_existing_loop (line # rest) acc =
     (case split_tab (strip line) of
        [category, checksum, p] \<Rightarrow>
          (if category = ''BASE''
           then load_existing_loop rest (acc\<lparr>BASE := dict_set p checksum (BASE acc)\<rparr>)
           else if category = ''OTHER''
           then load_existing_loop rest (acc\<lparr>OTHER := dict_set p checksum (OTHER acc)\<rparr>)
           else Inl KeyError)
      | _ \<Rightarrow> Inl ValueError)"

definition load_existing_checksums :: "string list \<Rightarrow> error + existing_checksums" where
  "load_existing_checksums checksum_file =
     load_existing_loop checksum_file \<lparr>BASE = [], OTHER = []\<rparr>"

fun load_existing_loop_single_dir ::
  "string list \<Rightarrow> (string \<times> digest) list \<Rightarrow> error + (string \<times> digest) list" where
  "load_existing_loop_single_dir [] acc = Inr acc"
| "load_existing_loop_single_dir (line # rest) acc =
     (case split_tab (strip line) of
        [checksum, p] \<Rightarrow> load_existing_loop_single_dir rest (dict_set p checksum acc)
      | _ \<Rightarrow> Inl ValueError)"

definition load_existing_checksums_single_dir ::
  "string list \<Rightarrow> error + (string \<times> digest) list" where
  "load_existing_checksums_single_dir checksum_file =
     load_existing_loop_single_dir checksum_file []"

text \<open>
  \<^verbatim>\<open>load_checksums\<close> wraps the same parse in \<^verbatim>\<open>try ... except Exception\<close>: the handler
  prints the error and the function returns the two tables as they are at that moment.
  The result is the pair of tables and the error that was printed, if any. The comparison
  table is a \<^verbatim>\<open>defaultdict(list)\<close>: each OTHER line appends to the list of its digest.
\<close>

definition other_append ::
  "digest \<Rightarrow> file_info \<Rightarrow> (digest \<times> dup_value) list \<Rightarrow> (digest \<times> dup_value) list" where
  "other_append checksum e other_checksums =
     (case map_of other_checksums checksum of
        Some (Lst l) \<Rightarrow> dict_set checksum (Lst (l @ [e])) other_checksums
      | _ \<Rightarrow> dict_set checksum (Lst [e]) other_checksums)"

fun load_checksums_loop ::
  "string list \<Rightarrow> (digest \<times> file_info) list \<times> (digest \<times> dup_value) list \<Rightarrow>
   ((digest \<times> file_info) list \<times> (digest \<times> dup_value) list) \<times> error option" where
  "load_checksums_loop [] acc = (acc, None)"
| "load_checksums_loop (line # rest) acc =
     (case split_tab (strip line) of
        [category, checksum, p] \<Rightarrow>
          (if category = ''BASE''
           then load_checksums_loop rest
                  (dict_set checksum \<lparr>path = p, abs_path = None\<rparr> (fst acc), snd acc)
           else if category = ''OTHER''
           then load_checksums_loop rest
                  (fst acc, other_append checksum \<lparr>path = p, abs_path = None\<rparr> (snd acc))
           else load_checksums_loop rest acc)
      | _ \<Rightarrow> (acc, Some ValueError))"

definition load_checksums ::
  "string list option \<Rightarrow>
   ((digest \<times> file_info) list \<times> (digest \<times> dup_value) list) \<times> error option" where
  "load_checksums checksum_file =
     (case checksum_file of
        None \<Rightarrow> (([], []), Some OSError)
      | Some lines \<Rightarrow> load_checksums_loop lines ([], []))"

text \<open>\<^verbatim>\<open>save_checksums\<close>: the lines written when the file can be written.\<close>

definition save_checksums ::
  "(digest \<times> file_info) list \<Rightarrow> (digest \<times> file_info) list \<Rightarrow> string list" where
  "save_checksums base_checksums other_checksums =
     map (\<lambda>(checksum, info). ''BASE'' @ [CHR 0x09] @ checksum @ [CHR 0x09] @ path info @ [CHR 0x0A])
       base_checksums @
     map (\<lambda>(checksum, info). ''OTHER'' @ [CHR 0x09] @ checksum @ [CHR 0x09] @ path info @ [CHR 0x0A])
       other_checksums"

definition save_checksums_single_dir :: "(digest \<times> sd_group) list \<Rightarrow> string list" where
  "save_checksums_single_dir checksums =
     concat (map (\<lambda>(checksum, info).
                    map (\<lambda>e. checksum @ [CHR 0x09] @ path e @ [CHR 0x0A])
                      (original info # sd_duplicates info))
               checksums)"

section \<open>The digesting passes\<close>

text \<open>
  Both functions return what the source returns and, as a last component, the list of the
  files that \<^verbatim>\<open>compute_xxhash64\<close> was called on.
\<close>

definition calculate_checksums ::
  "(string \<Rightarrow> string option) \<Rightarrow> (string \<Rightarrow> digest) \<Rightarrow> walked list \<Rightarrow> walked list \<Rightarrow>
   string list option \<Rightarrow> bool \<Rightarrow>
   error + ((digest \<times> file_info) list \<times> (digest \<times> file_info) list \<times> int \<times> int \<times> string list)" where
  "calculate_checksums disk xxh base_files other_files checksum_file skip_existing =
     (case (case (if skip_existing then checksum_file else None) of
              None \<Rightarrow> Inr \<lparr>BASE = [], OTHER = []\<rparr>
            | Some lines \<Rightarrow> load_existing_checksums lines) of
        Inl e \<Rightarrow> Inl e
      | Inr existing \<Rightarrow>
          (case checksum_pass disk xxh skip_existing (BASE existing) base_files ([], []) of
             Inl e \<Rightarrow> Inl e
           | Inr (base_checksums, hashed) \<Rightarrow>
               (case checksum_pass disk xxh skip_existing (OTHER existing) other_files
                       ([], hashed) of
                  Inl e \<Rightarrow> Inl e
                | Inr (other_checksums, hashed') \<Rightarrow>
                    Inr (base_checksums, other_checksums,
                         int (length base_files), int (length other_files), hashed'))))"

definition calculate_checksums_single_dir ::
  "(string \<Rightarrow> string option) \<Rightarrow> (string \<Rightarrow> digest) \<Rightarrow> walked list \<Rightarrow>
   string list option \<Rightarrow> bool \<Rightarrow>
   error + ((digest \<times> sd_group) list \<times> int \<times> string list)" where
  "calculate_checksums_single_dir disk xxh files checksum_file skip_existing =
     (case (case (if skip_existing then checksum_file else None) of
              None \<Rightarrow> Inr []
            | Some lines \<Rightarrow> load_existing_checksums_single_dir lines) of
        Inl e \<Rightarrow> Inl e
      | Inr existing \<Rightarrow>
          (case sd_pass disk xxh skip_existing existing files ([], []) of
             Inl e \<Rightarrow> Inl e
           | Inr (checksums, hashed) \<Rightarrow> Inr (checksums, int (length files), hashed)))"

section \<open>The duplicate resolvers\<close>

definition summarize_duplicates ::
  "(digest \<times> file_info) list \<Rightarrow> (digest \<times> dup_value) list \<Rightarrow>
   (digest \<times> dup_group) list \<times> int \<times> int" where
  "summarize_duplicates base_checksums other_checksums =
     (foldl (\<lambda>dups (checksum, info_list).
               case map_of base_checksums checksum of
                 None \<Rightarrow> dups
               | Some b \<Rightarrow> dict_set checksum \<lparr>base = b, duplicates = info_list\<rparr> dups)
        [] other_checksums,
      int (length base_checksums),
      sum_list (map (\<lambda>(checksum, v). py_len v) other_checksums))"

text \<open>
  For the search and checksum commands \<^verbatim>\<open>main\<close> hands the comparison table of
  \<^verbatim>\<open>calculate_checksums\<close>, whose values are entry dictionaries, to
  \<^verbatim>\<open>summarize_duplicates\<close> as it is.
\<close>

definition as_values :: "(digest \<times> file_info) list \<Rightarrow> (digest \<times> dup_value) list" where
  "as_values other_checksums = map (\<lambda>(checksum, info). (checksum, Rec info)) other_checksums"

text \<open>The two counts that \<^verbatim>\<open>display_summary\<close> derives and prints.\<close>

definition total_duplicates :: "(digest \<times> dup_group) list \<Rightarrow> int" where
  "total_duplicates dups = sum_list (map (\<lambda>(checksum, info). py_len (duplicates info)) dups)"

definition total_unique_files_in_other_dir :: "(digest \<times> dup_group) list \<Rightarrow> int \<Rightarrow> int" where
  "total_unique_files_in_other_dir dups total_other_files =
     total_other_files - total_duplicates dups"

definition summarize_duplicates_single_dir ::
  "(digest \<times> sd_group) list \<Rightarrow> (digest \<times> sd_group) list \<times> int" where
  "summarize_duplicates_single_dir checksums =
     (foldl (\<lambda>dups (checksum, info).
               if sd_duplicates info \<noteq> [] then dict_set checksum info dups else dups)
        [] checksums,
      sum_list (map (\<lambda>(checksum, info). 1 + int (length (sd_duplicates info))) checksums))"

text \<open>
  The single-tree digest table of the specification: the files of the walk that were given
  digest \<open>d\<close>, in walk order.
\<close>

definition first_seen ::
  "(string \<Rightarrow> string option) \<Rightarrow> (string \<Rightarrow> digest) \<Rightarrow> bool \<Rightarrow> (string \<times> digest) list \<Rightarrow>
   walked list \<Rightarrow> digest \<Rightarrow> file_info list" where
  "first_seen disk xxh skip_existing existing files d =
     map entry_of (filter (\<lambda>f. file_checksum disk xxh skip_existing existing f = Inr d) files)"

section \<open>The deletion driver\<close>

text \<open>
  \<^verbatim>\<open>delete_duplicates\<close> and \<^verbatim>\<open>delete_duplicates_single_dir\<close> are the same text line for
  line, up to the names of the canonical entry (\<^verbatim>\<open>base\<close>, \<^verbatim>\<open>original\<close>), the directories
  the paths are joined to and the wording of the closing reminder. They are modelled by one
  core, which each of them instantiates.

  The file system is a map from a path to the state of the file there: absent, present,
  or present but such that \<^verbatim>\<open>os.remove\<close> raises. Every \<^verbatim>\<open>print\<close> of the source is an event
  of the output, and each call of \<^verbatim>\<open>os.remove\<close> leaves the event \<open>OsRemove\<close>. The
  operator's answers are the list of the lines that \<^verbatim>\<open>input\<close> returns, in order; when
  the list is used up \<^verbatim>\<open>input\<close> raises EOFError. An exception ends the run: the state
  reached is kept and the exception is recorded in \<open>raised\<close>.
\<close>

datatype fstat = Absent | Present | Undeletable

datatype event =
    TotalToDelete nat
  | ConfirmationEnabled
  | NextFiles
  | NextDuplicate nat string
  | NextBase string
  | Skipping string
  | Cancelled
  | InvalidInput
  | OsRemove string
  | Deleted string
  | ErrorDeleting string
  | FileNotFound string
  | RapidWarning
  | Deleting nat nat string
  | BaseFile string
  | FilesLeft int
  | Sleep
  | TotalDeleted int
  | ReminderChecksum
  | ReminderDedup

text \<open>
  An element of a group's duplicates as the queue loop sees it: an entry dictionary when
  the duplicates are a list, a key (a string) when they are an entry dictionary, since
  iterating a dictionary yields its keys. Subscripting a string with \<^verbatim>\<open>"path"\<close> raises
  TypeError.
\<close>

datatype dup_elem = Entry file_info | Key string

record item =
  canonical :: file_info
  duplicate :: dup_elem

record dstate =
  idx :: nat
  skip_count :: int
  total_deleted :: int
  fsys :: "string \<Rightarrow> fstat"
  out :: "event list"
  raised :: "error option"

fun elements :: "dup_value \<Rightarrow> dup_elem list" where
  "elements (Lst l) = map Entry l"
| "elements (Rec r) =
     map Key (''path'' # (case abs_path r of None \<Rightarrow> [] | Some _ \<Rightarrow> [''abs_path'']))"

definition files_to_delete :: "(digest \<times> dup_group) list \<Rightarrow> item list" where
  "files_to_delete dups =
     concat (map (\<lambda>(checksum, info).
                    map (\<lambda>file_info. \<lparr>canonical = base info, duplicate = file_info\<rparr>)
                      (elements (duplicates info)))
               dups)"

definition files_to_delete_single_dir :: "(digest \<times> sd_group) list \<Rightarrow> item list" where
  "files_to_delete_single_dir dups =
     concat (map (\<lambda>(checksum, checksum_info).
                    map (\<lambda>file_info. \<lparr>canonical = original checksum_info,
                                      duplicate = Entry file_info\<rparr>)
                      (sd_duplicates checksum_info))
               dups)"

text \<open>
  \<^verbatim>\<open>os.path.abspath(os.path.join(dir, info["path"]))\<close> is a function \<open>rd\<close> of the relative
  path for the duplicates and \<open>rb\<close> for the canonical files.
\<close>

definition duplicate_path :: "(string \<Rightarrow> string) \<Rightarrow> item \<Rightarrow> string option" where
  "duplicate_path rd it =
     (case duplicate it of Entry e \<Rightarrow> Some (rd (path e)) | Key k \<Rightarrow> None)"

text \<open>The block \<^verbatim>\<open>if os.path.exists(p): try: os.remove(p) ... except ... else: ...\<close>.\<close>

definition remove_file :: "string \<Rightarrow> dstate \<Rightarrow> dstate" where
  "remove_file p st =
     (case fsys st p of
        Absent \<Rightarrow> st\<lparr>out := out st @ [FileNotFound p]\<rparr>
      | Present \<Rightarrow>
          st\<lparr>fsys := (fsys st)(p := Absent),
             out := out st @ [OsRemove p, Deleted p],
             total_deleted := total_deleted st + 1\<rparr>
      | Undeletable \<Rightarrow> st\<lparr>out := out st @ [OsRemove p, ErrorDeleting p]\<rparr>)"

text \<open>The preview loop \<^verbatim>\<open>for j in range(idx, min(idx + list_next, total_files))\<close>.\<close>

fun preview ::
  "(string \<Rightarrow> string) \<Rightarrow> (string \<Rightarrow> string) \<Rightarrow> nat \<Rightarrow> item list \<Rightarrow> dstate \<Rightarrow> dstate" where
  "preview rd rb j [] st = st"
| "preview rd rb j (next_item # rest) st =
     (case duplicate_path rd next_item of
        None \<Rightarrow> st\<lparr>raised := Some TypeError\<rparr>
      | Some p \<Rightarrow>
          preview rd rb (j + 1) rest
            (st\<lparr>out := out st @ [NextDuplicate (j + 1) p,
                                  NextBase (rb (path (canonical next_item)))]\<rparr>))"

text \<open>The loop of the answer \<^verbatim>\<open>n<number>\<close>.\<close>

fun skip_next :: "(string \<Rightarrow> string) \<Rightarrow> item list \<Rightarrow> nat \<Rightarrow> dstate \<Rightarrow> dstate" where
  "skip_next rd items 0 st = st"
| "skip_next rd items (Suc n) st =
     (if idx st \<ge> length items then st
      else (case duplicate_path rd (items ! idx st) of
              None \<Rightarrow> st\<lparr>raised := Some TypeError\<rparr>
            | Some p \<Rightarrow>
                skip_next rd items n (st\<lparr>out := out st @ [Skipping p], idx := idx st + 1\<rparr>)))"

text \<open>The loop of the answer \<^verbatim>\<open>nall\<close>, over the items from the cursor on.\<close>

fun skip_rest :: "(string \<Rightarrow> string) \<Rightarrow> item list \<Rightarrow> dstate \<Rightarrow> dstate" where
  "skip_rest rd [] st = st"
| "skip_rest rd (it # rest) st =
     (case duplicate_path rd it of
        None \<Rightarrow> st\<lparr>raised := Some TypeError\<rparr>
      | Some p \<Rightarrow> skip_rest rd rest (st\<lparr>out := out st @ [Skipping p]\<rparr>))"

text \<open>
  The loop \<^verbatim>\<open>for _ in range(skip_count)\<close> that follows a deletion: it advances the cursor,
  leaves when the cursor is past the queue, and removes the item under the cursor.
\<close>

fun auto_delete :: "(string \<Rightarrow> string) \<Rightarrow> item list \<Rightarrow> nat \<Rightarrow> dstate \<Rightarrow> dstate" where
  "auto_delete rd items 0 st = st"
| "auto_delete rd items (Suc n) st =
     (if idx st + 1 \<ge> length items then st\<lparr>idx := idx st + 1\<rparr>
      else (case duplicate_path rd (items ! (idx st + 1)) of
              None \<Rightarrow> st\<lparr>idx := idx st + 1, raised := Some TypeError\<rparr>
            | Some p \<Rightarrow> auto_delete rd items n (remove_file p (st\<lparr>idx := idx st + 1\<rparr>))))"

text \<open>
  From \<^verbatim>\<open># Delete the current file\<close> to the end of the loop body: remove the file under
  the cursor, advance the cursor, and run the loop above when \<^verbatim>\<open>skip_count > 0\<close>.
\<close>

definition delete_current :: "(string \<Rightarrow> string) \<Rightarrow> item list \<Rightarrow> string \<Rightarrow> dstate \<Rightarrow> dstate" where
  "delete_current rd items p st =
     (let st1 = remove_file p st;
          st2 = st1\<lparr>idx := idx st1 + 1\<rparr>
      in if skip_count st2 > 0
         then (let st3 = auto_delete rd items (nat (skip_count st2)) st2
               in if raised st3 = None then st3\<lparr>skip_count := 0\<rparr> else st3)
         else st2)"

text \<open>
  The chain of tests on the answer, in the order of the source. The result says whether
  the loop is left by \<^verbatim>\<open>break\<close>.
\<close>

definition respond ::
  "(string \<Rightarrow> string) \<Rightarrow> item list \<Rightarrow> string \<Rightarrow> string \<Rightarrow> dstate \<Rightarrow> bool \<times> dstate" where
  "respond rd items p user_input st =
     (if user_input = ''y'' then (False, delete_current rd items p (st\<lparr>skip_count := 0\<rparr>))
      else if user_input = ''n''
      then (False, st\<lparr>out := out st @ [Skipping p], idx := idx st + 1\<rparr>)
      else if take 1 user_input = ''y'' \<and> isdigit (drop 1 user_input)
      then (case py_int (drop 1 user_input) of
              Inl e \<Rightarrow> (False, st\<lparr>raised := Some e\<rparr>)
            | Inr n \<Rightarrow> (False, delete_current rd items p (st\<lparr>skip_count := n - 1\<rparr>)))
      else if take 1 user_input = ''n'' \<and> isdigit (drop 1 user_input)
      then (case py_int (drop 1 user_input) of
              Inl e \<Rightarrow> (False, st\<lparr>raised := Some e\<rparr>)
            | Inr num_to_skip \<Rightarrow> (False, skip_next rd items (nat num_to_skip) st))
      else if user_input = ''yall''
      then (False, delete_current rd items p
                     (st\<lparr>skip_count := int (length items) - int (idx st) - 1\<rparr>))
      else if user_input = ''nall''
      then (True, skip_rest rd (drop (idx st) items) (st\<lparr>out := out st @ [Cancelled]\<rparr>))
      else (False, st\<lparr>out := out st @ [InvalidInput]\<rparr>))"

text \<open>
  The head of an iteration of \<^verbatim>\<open>while idx < total_files\<close>, up to the call of \<^verbatim>\<open>input\<close>:
  the path of the item under the cursor and the preview.
\<close>

definition loop_head ::
  "(string \<Rightarrow> string) \<Rightarrow> (string \<Rightarrow> string) \<Rightarrow> int \<Rightarrow> item list \<Rightarrow> dstate \<Rightarrow> string option \<times> dstate" where
  "loop_head rd rb list_next items st =
     (case duplicate_path rd (items ! idx st) of
        None \<Rightarrow> (None, st\<lparr>raised := Some TypeError\<rparr>)
      | Some p \<Rightarrow>
          (Some p,
           preview rd rb (idx st)
             (take (nat (min (int (idx st) + list_next) (int (length items))) - idx st)
                (drop (idx st) items))
             (st\<lparr>out := out st @ [NextFiles]\<rparr>)))"

text \<open>
  The interactive loop. Each iteration calls \<^verbatim>\<open>input\<close> once, so the loop recurses on the
  list of answers.
\<close>

fun interactive ::
  "(string \<Rightarrow> string) \<Rightarrow> (string \<Rightarrow> string) \<Rightarrow> int \<Rightarrow> item list \<Rightarrow> string list \<Rightarrow> dstate \<Rightarrow> dstate" where
  "interactive rd rb list_next items [] st =
     (if idx st \<ge> length items then st
      else (case loop_head rd rb list_next items st of
              (None, st1) \<Rightarrow> st1
            | (Some p, st1) \<Rightarrow>
                if raised st1 \<noteq> None then st1 else st1\<lparr>raised := Some EOFError\<rparr>))"
| "interactive rd rb list_next items (answer # answers) st =
     (if idx st \<ge> length items then st
      else (case loop_head rd rb list_next items st of
              (None, st1) \<Rightarrow> st1
            | (Some p, st1) \<Rightarrow>
                if raised st1 \<noteq> None then st1
                else (case respond rd items p (lower (strip answer)) st1 of
                        (brk, st2) \<Rightarrow>
                          if brk \<or> raised st2 \<noteq> None then st2
                          else interactive rd rb list_next items answers st2)))"

text \<open>The batch loop \<^verbatim>\<open>for idx, item in enumerate(files_to_delete, start=1)\<close>.\<close>

fun batch_loop ::
  "(string \<Rightarrow> string) \<Rightarrow> (string \<Rightarrow> string) \<Rightarrow> nat \<Rightarrow> real \<Rightarrow> nat \<Rightarrow> item list \<Rightarrow> dstate \<Rightarrow> dstate" where
  "batch_loop rd rb total_files sleep_time i [] st = st"
| "batch_loop rd rb total_files sleep_time i (it # rest) st =
     (case duplicate_path rd it of
        None \<Rightarrow> st\<lparr>raised := Some TypeError\<rparr>
      | Some p \<Rightarrow>
          (let files_left = int total_files - int i;
               st1 = remove_file p
                       (st\<lparr>out := out st @ [Deleting i total_files p,
                                             BaseFile (rb (path (canonical it))),
                                             FilesLeft files_left]\<rparr>);
               st2 = (if files_left > 0 \<and> sleep_time > 0
                      then st1\<lparr>out := out st1 @ [Sleep]\<rparr> else st1)
           in batch_loop rd rb total_files sleep_time (i + 1) rest st2))"

text \<open>The two closing prints, reached when the function has not returned or raised.\<close>

definition report :: "event \<Rightarrow> dstate \<Rightarrow> dstate" where
  "report reminder st =
     (if raised st = None
      then st\<lparr>out := out st @ [TotalDeleted (total_deleted st), reminder]\<rparr> else st)"

definition delete_core ::
  "(string \<Rightarrow> string) \<Rightarrow> (string \<Rightarrow> string) \<Rightarrow> event \<Rightarrow> item list \<Rightarrow> real \<Rightarrow> bool \<Rightarrow> int \<Rightarrow>
   string list \<Rightarrow> (string \<Rightarrow> fstat) \<Rightarrow> dstate" where
  "delete_core rd rb reminder items sleep_time confirm list_next answers fs0 =
     (let st0 = \<lparr>idx = 0, skip_count = 0, total_deleted = 0, fsys = fs0,
                 out = [TotalToDelete (length items)], raised = None\<rparr>
      in if confirm
         then report reminder
                (interactive rd rb list_next items answers
                   (st0\<lparr>out := out st0 @ [ConfirmationEnabled]\<rparr>))
         else if sleep_time = 0
         then (case answers of
                 [] \<Rightarrow> st0\<lparr>out := out st0 @ [RapidWarning], raised := Some EOFError\<rparr>
               | confirm_input # _ \<Rightarrow>
                   if lower confirm_input \<noteq> ''yes''
                   then st0\<lparr>out := out st0 @ [RapidWarning, Cancelled]\<rparr>
                   else report reminder
                          (batch_loop rd rb (length items) sleep_time 1 items
                             (st0\<lparr>out := out st0 @ [RapidWarning]\<rparr>)))
         else report reminder (batch_loop rd rb (length items) sleep_time 1 items st0))"

text \<open>
  The two routines. \<open>resolve dir p\<close> is \<^verbatim>\<open>os.path.abspath(os.path.join(dir, p))\<close>.
\<close>

definition delete_duplicates ::
  "(string \<Rightarrow> string \<Rightarrow> string) \<Rightarrow> (digest \<times> dup_group) list \<Rightarrow> string \<Rightarrow> string \<Rightarrow> real \<Rightarrow>
   bool \<Rightarrow> int \<Rightarrow> string list \<Rightarrow> (string \<Rightarrow> fstat) \<Rightarrow> dstate" where
  "delete_duplicates resolve dups base_dir other_dir sleep_time confirm list_next answers fs0 =
     delete_core (resolve other_dir) (resolve base_dir) ReminderChecksum
       (files_to_delete dups) sleep_time confirm list_next answers fs0"

definition delete_duplicates_single_dir ::
  "(string \<Rightarrow> string \<Rightarrow> string) \<Rightarrow> (digest \<times> sd_group) list \<Rightarrow> string \<Rightarrow> real \<Rightarrow>
   bool \<Rightarrow> int \<Rightarrow> string list \<Rightarrow> (string \<Rightarrow> fstat) \<Rightarrow> dstate" where
  "delete_duplicates_single_dir resolve dups directory sleep_time confirm list_next answers fs0 =
     delete_core (resolve directory) (resolve directory) ReminderDedup
       (files_to_delete_single_dir dups) sleep_time confirm list_next answers fs0"

text \<open>
  Two notions for stating properties of a run. A state keeps to a set of paths when every
  call of \<^verbatim>\<open>os.remove\<close> so far was on a path of the set and every file outside the set is
  as it was at the start. The attempts of an output are the paths that went through the
  exists-then-remove block, in order.
\<close>

definition keeps_to :: "string set \<Rightarrow> (string \<Rightarrow> fstat) \<Rightarrow> dstate \<Rightarrow> bool" where
  "keeps_to T fs0 st =
     ((\<forall>p. OsRemove p \<in> set (out st) \<longrightarrow> p \<in> T) \<and> (\<forall>p. p \<notin> T \<longrightarrow> fsys st p = fs0 p))"

text \<open>The paths of the queue: the resolved paths of the entries among its duplicates.\<close>

definition targets :: "(string \<Rightarrow> string) \<Rightarrow> item list \<Rightarrow> string set" where
  "targets rd items = {p. \<exists>it \<in> set items. duplicate_path rd it = Some p}"

fun attempts :: "event list \<Rightarrow> string list" where
  "attempts [] = []"
| "attempts (Deleted p # es) = p # attempts es"
| "attempts (ErrorDeleting p # es) = p # attempts es"
| "attempts (FileNotFound p # es) = p # attempts es"
| "attempts (e # es) = attempts es"

text \<open>
  Two runs take the same course when they stand at the same cursor with the same skip
  count, have raised the same exception or none, and have put the same paths through the
  exists-then-remove block.
\<close>

definition same_course :: "dstate \<Rightarrow> dstate \<Rightarrow> bool" where
  "same_course st st' =
     (idx st = idx st' \<and> skip_count st = skip_count st' \<and> raised st = raised st'
      \<and> attempts (out st) = attempts (out st'))"








text \<open>
  A field survives being written to a line and read back when it is not empty, has no
  white space at either end and holds no tab and no line break. Relative paths need not
  be of this kind; the digests that \<^verbatim>\<open>hexdigest\<close> returns (sixteen hexadecimal digits) are.
\<close>

definition clean_field :: "string \<Rightarrow> bool" where
  "clean_field s =
     (s \<noteq> [] \<and> \<not> is_space (hd s) \<and> \<not> is_space (last s)
      \<and> list_all (\<lambda>c. c \<noteq> CHR 0x09 \<and> c \<noteq> CHR 0x0A \<and> c \<noteq> CHR 0x0D) s)"

text \<open>
  For the reuse of a saved table: the dictionary from path to digest that
  \<^verbatim>\<open>load_existing_checksums\<close> builds from the lines saved for a table, the table a pass
  builds when each file \<open>f\<close> is given the digest \<open>dg f\<close>, and the digest of a file's bytes
  on the disk.
\<close>

definition by_path :: "(string \<times> digest) list \<Rightarrow> (digest \<times> file_info) list \<Rightarrow> (string \<times> digest) list" where
  "by_path acc tbl = foldl (\<lambda>a (c, i). dict_set (path i) c a) acc tbl"

definition pass_table ::
  "(walked \<Rightarrow> digest) \<Rightarrow> (digest \<times> file_info) list \<Rightarrow> walked list \<Rightarrow> (digest \<times> file_info) list" where
  "pass_table dg t files = foldl (\<lambda>t f. dict_set (dg f) (entry_of f) t) t files"

definition disk_digest :: "(string \<Rightarrow> string option) \<Rightarrow> (string \<Rightarrow> digest) \<Rightarrow> walked \<Rightarrow> digest" where
  "disk_digest disk xxh f = (case disk (snd f) of None \<Rightarrow> [] | Some bytes \<Rightarrow> xxh bytes)"

section \<open>Properties of dictionaries\<close>

lemma map_of_dict_set: "map_of (dict_set k v al) = (map_of al)(k \<mapsto> v)"
  by (induction al) (auto simp: fun_eq_iff)

lemma keys_dict_set: "fst ` set (dict_set k v al) = insert k (fst ` set al)"
proof -
  have "dom (map_of (dict_set k v al)) = insert k (dom (map_of al))"
    by (simp add: map_of_dict_set)
  then show ?thesis by (simp only: dom_map_of_conv_image_fst)
qed

lemma distinct_dict_set: "distinct (map fst (dict_set k v al)) = distinct (map fst al)"
proof (induction al)
  case Nil
  then show ?case by simp
next
  case (Cons p al)
  obtain c g where p: "p = (c, g)" by (cases p)
  show ?case using Cons.IH keys_dict_set[of k v al] by (simp add: p)
qed

lemma dict_set_fresh: "k \<notin> fst ` set al \<Longrightarrow> dict_set k v al = al @ [(k, v)]"
  by (induction al) auto

lemma filter_key_distinct:
  "distinct (map fst al) \<Longrightarrow>
   map snd (filter (\<lambda>(c, g). c = d) al) = (case map_of al d of None \<Rightarrow> [] | Some g \<Rightarrow> [g])"
proof (induction al)
  case Nil
  then show ?case by simp
next
  case (Cons p al)
  obtain c g where p: "p = (c, g)" by (cases p)
  show ?case
  proof (cases "c = d")
    case True
    with Cons.prems p have "d \<notin> fst ` set al" by auto
    then have "filter (\<lambda>(c, g). c = d) al = []"
      by (force simp: filter_empty_conv)
    with True p show ?thesis by simp
  next
    case False
    with Cons p show ?thesis by simp
  qed
qed

lemma sd_fold_filter:
  "distinct (map fst cs) \<Longrightarrow> fst ` set cs \<inter> fst ` set acc = {} \<Longrightarrow>
   foldl (\<lambda>dups (checksum, info).
            if sd_duplicates info \<noteq> [] then dict_set checksum info dups else dups) acc cs
   = acc @ filter (\<lambda>(checksum, info). sd_duplicates info \<noteq> []) cs"
proof (induction cs arbitrary: acc)
  case Nil
  then show ?case by simp
next
  case (Cons p cs)
  obtain c g where p: "p = (c, g)" by (cases p)
  from Cons.prems p have fresh: "c \<notin> fst ` set acc" by auto
  show ?case
  proof (cases "sd_duplicates g \<noteq> []")
    case True
    have "fst ` set cs \<inter> fst ` set (acc @ [(c, g)]) = {}"
      using Cons.prems p by auto
    with Cons.IH[of "acc @ [(c, g)]"] Cons.prems True p fresh show ?thesis
      by (simp add: dict_set_fresh)
  next
    case False
    have "fst ` set cs \<inter> fst ` set acc = {}" using Cons.prems by auto
    with Cons.IH[of acc] Cons.prems False p show ?thesis by simp
  qed
qed

section \<open>The single-tree resolver\<close>

lemma sd_pass_inv:
  assumes "sd_pass disk xxh sk ex fs (tbl, h) = Inr (tbl', h')"
    and "distinct (map fst tbl)"
    and "\<And>d. map_of tbl d =
           (case first_seen disk xxh sk ex seen d of
              [] \<Rightarrow> None | x # xs \<Rightarrow> Some \<lparr>original = x, sd_duplicates = xs\<rparr>)"
  shows "distinct (map fst tbl') \<and>
         (\<forall>d. map_of tbl' d =
           (case first_seen disk xxh sk ex (seen @ fs) d of
              [] \<Rightarrow> None | x # xs \<Rightarrow> Some \<lparr>original = x, sd_duplicates = xs\<rparr>))"
  using assms
proof (induction fs arbitrary: tbl h seen)
  case Nil
  then show ?case by simp
next
  case (Cons f fs)
  from Cons.prems(1) obtain c where c: "file_checksum disk xxh sk ex f = Inr c"
    by (auto split: sum.splits)
  let ?tbl = "sd_insert c f tbl"
  let ?h = "if hashes_file sk ex f then h @ [snd f] else h"
  from Cons.prems(1) c have run: "sd_pass disk xxh sk ex fs (?tbl, ?h) = Inr (tbl', h')"
    by (cases "hashes_file sk ex f") simp_all
  have d1: "distinct (map fst ?tbl)"
    using Cons.prems(2) by (simp add: sd_insert_def distinct_dict_set split: option.splits)
  have m1: "map_of ?tbl d =
           (case first_seen disk xxh sk ex (seen @ [f]) d of
              [] \<Rightarrow> None | x # xs \<Rightarrow> Some \<lparr>original = x, sd_duplicates = xs\<rparr>)" for d
  proof (cases "d = c")
    case True
    show ?thesis
    proof (cases "first_seen disk xxh sk ex seen c")
      case Nil
      with Cons.prems(3)[of c] have "map_of tbl c = None" by simp
      with Nil True c show ?thesis
        by (simp add: sd_insert_def map_of_dict_set first_seen_def)
    next
      case (Cons x xs)
      with Cons.prems(3)[of c] have "map_of tbl c = Some \<lparr>original = x, sd_duplicates = xs\<rparr>" by simp
      with Cons True c show ?thesis
        by (simp add: sd_insert_def map_of_dict_set first_seen_def)
    qed
  next
    case False
    with c have "first_seen disk xxh sk ex (seen @ [f]) d = first_seen disk xxh sk ex seen d"
      by (auto simp: first_seen_def)
    with False Cons.prems(3)[of d] show ?thesis
      by (simp add: sd_insert_def map_of_dict_set split: option.splits)
  qed
  from Cons.IH[OF run d1, of "seen @ [f]"] m1 show ?case by simp
qed

lemma sd_groups_at:
  assumes "distinct (map fst cs)"
  shows "map snd (filter (\<lambda>(c, g). c = d)
            (filter (\<lambda>(checksum, info). sd_duplicates info \<noteq> []) cs))
         = (case map_of cs d of None \<Rightarrow> []
            | Some g \<Rightarrow> if sd_duplicates g \<noteq> [] then [g] else [])"
proof -
  have "map snd (filter (\<lambda>(c, g). c = d)
            (filter (\<lambda>(checksum, info). sd_duplicates info \<noteq> []) cs))
        = filter (\<lambda>g. sd_duplicates g \<noteq> []) (map snd (filter (\<lambda>(c, g). c = d) cs))"
    by (induction cs) auto
  also have "\<dots> = filter (\<lambda>g. sd_duplicates g \<noteq> [])
                     (case map_of cs d of None \<Rightarrow> [] | Some g \<Rightarrow> [g])"
    by (simp only: filter_key_distinct[OF assms])
  finally show ?thesis by (simp split: option.splits)
qed

lemma key_in_filter_nonempty:
  "d \<in> fst ` set al \<Longrightarrow> map snd (filter (\<lambda>(c, g). c = d) al) \<noteq> []"
  by (induction al) auto

text \<open>
  Claim C9. In single-tree mode a digest given to more than one file of the walk yields
  exactly one group, whose original is the first such file and whose duplicates are the
  later ones in walk order; a digest given to at most one file yields no group; and every
  group that is emitted has a non-empty list of duplicates.
\<close>

theorem single_tree_groups:
  assumes "sd_pass disk xxh sk ex files ([], []) = Inr (checksums, hashed)"
  shows "(1 < length (first_seen disk xxh sk ex files d) \<longrightarrow>
            map snd (filter (\<lambda>(c, g). c = d) (fst (summarize_duplicates_single_dir checksums)))
            = [\<lparr>original = hd (first_seen disk xxh sk ex files d),
                sd_duplicates = tl (first_seen disk xxh sk ex files d)\<rparr>])
       \<and> (length (first_seen disk xxh sk ex files d) \<le> 1 \<longrightarrow>
            d \<notin> fst ` set (fst (summarize_duplicates_single_dir checksums)))
       \<and> (\<forall>(c, g) \<in> set (fst (summarize_duplicates_single_dir checksums)).
            sd_duplicates g \<noteq> [])"
proof -
  let ?L = "first_seen disk xxh sk ex files d"
  let ?G = "fst (summarize_duplicates_single_dir checksums)"
  have inv: "distinct (map fst checksums) \<and>
         (\<forall>d. map_of checksums d =
           (case first_seen disk xxh sk ex ([] @ files) d of
              [] \<Rightarrow> None | x # xs \<Rightarrow> Some \<lparr>original = x, sd_duplicates = xs\<rparr>))"
    by (rule sd_pass_inv[OF assms]) (simp_all add: first_seen_def)
  then have dist: "distinct (map fst checksums)"
    and look: "map_of checksums d =
           (case ?L of [] \<Rightarrow> None | x # xs \<Rightarrow> Some \<lparr>original = x, sd_duplicates = xs\<rparr>)"
    by simp_all
  have G: "?G = filter (\<lambda>(checksum, info). sd_duplicates info \<noteq> []) checksums"
    using sd_fold_filter[OF dist, of "[]"] by (simp add: summarize_duplicates_single_dir_def)
  have at: "map snd (filter (\<lambda>(c, g). c = d) ?G)
            = (case map_of checksums d of None \<Rightarrow> []
               | Some g \<Rightarrow> if sd_duplicates g \<noteq> [] then [g] else [])"
    unfolding G by (rule sd_groups_at[OF dist])
  have p1: "1 < length ?L \<longrightarrow> map snd (filter (\<lambda>(c, g). c = d) ?G)
            = [\<lparr>original = hd ?L, sd_duplicates = tl ?L\<rparr>]"
  proof
    assume "1 < length ?L"
    then obtain x y ys where "?L = x # y # ys"
      by (cases ?L; cases "tl ?L") auto
    with at look show "map snd (filter (\<lambda>(c, g). c = d) ?G)
            = [\<lparr>original = hd ?L, sd_duplicates = tl ?L\<rparr>]" by simp
  qed
  have p2: "length ?L \<le> 1 \<longrightarrow> d \<notin> fst ` set ?G"
  proof
    assume "length ?L \<le> 1"
    then have "?L = [] \<or> (\<exists>x. ?L = [x])"
      by (cases ?L; cases "tl ?L") auto
    with at look have "map snd (filter (\<lambda>(c, g). c = d) ?G) = []" by auto
    then show "d \<notin> fst ` set ?G" using key_in_filter_nonempty[of d ?G] by blast
  qed
  have p3: "\<forall>(c, g) \<in> set ?G. sd_duplicates g \<noteq> []"
    unfolding G by auto
  from p1 p2 p3 show ?thesis by blast
qed

theorem single_tree_groups_witness:
  "sd_pass (map_of [(''/t/p1'', ''x''), (''/t/p2'', ''x''), (''/t/p3'', ''x''), (''/t/p4'', ''y'')])
      (\<lambda>bytes. bytes) False []
      [(''p1'', ''/t/p1''), (''p2'', ''/t/p2''), (''p3'', ''/t/p3''), (''p4'', ''/t/p4'')] ([], [])
    = Inr ([(''x'', \<lparr>original = \<lparr>path = ''p1'', abs_path = Some ''/t/p1''\<rparr>,
                    sd_duplicates = [\<lparr>path = ''p2'', abs_path = Some ''/t/p2''\<rparr>,
                                     \<lparr>path = ''p3'', abs_path = Some ''/t/p3''\<rparr>]\<rparr>),
            (''y'', \<lparr>original = \<lparr>path = ''p4'', abs_path = Some ''/t/p4''\<rparr>, sd_duplicates = []\<rparr>)],
           [''/t/p1'', ''/t/p2'', ''/t/p3'', ''/t/p4''])
   \<and> map snd (filter (\<lambda>(c, g). c = ''x'')
        (fst (summarize_duplicates_single_dir
           [(''x'', \<lparr>original = \<lparr>path = ''p1'', abs_path = Some ''/t/p1''\<rparr>,
                    sd_duplicates = [\<lparr>path = ''p2'', abs_path = Some ''/t/p2''\<rparr>,
                                     \<lparr>path = ''p3'', abs_path = Some ''/t/p3''\<rparr>]\<rparr>),
            (''y'', \<lparr>original = \<lparr>path = ''p4'', abs_path = Some ''/t/p4''\<rparr>, sd_duplicates = []\<rparr>)])))
     = [\<lparr>original = \<lparr>path = ''p1'', abs_path = Some ''/t/p1''\<rparr>,
         sd_duplicates = [\<lparr>path = ''p2'', abs_path = Some ''/t/p2''\<rparr>,
                          \<lparr>path = ''p3'', abs_path = Some ''/t/p3''\<rparr>]\<rparr>]
   \<and> ''y'' \<notin> fst ` set (fst (summarize_duplicates_single_dir
           [(''x'', \<lparr>original = \<lparr>path = ''p1'', abs_path = Some ''/t/p1''\<rparr>,
                    sd_duplicates = [\<lparr>path = ''p2'', abs_path = Some ''/t/p2''\<rparr>,
                                     \<lparr>path = ''p3'', abs_path = Some ''/t/p3''\<rparr>]\<rparr>),
            (''y'', \<lparr>original = \<lparr>path = ''p4'', abs_path = Some ''/t/p4''\<rparr>, sd_duplicates = []\<rparr>)]))"
proof -
  let ?D = "map_of [(''/t/p1'', ''x''), (''/t/p2'', ''x''), (''/t/p3'', ''x''), (''/t/p4'', ''y'')]"
  let ?F = "[(''p1'', ''/t/p1''), (''p2'', ''/t/p2''), (''p3'', ''/t/p3''), (''p4'', ''/t/p4'')]"
  let ?T = "[(''x'', \<lparr>original = \<lparr>path = ''p1'', abs_path = Some ''/t/p1''\<rparr>,
                    sd_duplicates = [\<lparr>path = ''p2'', abs_path = Some ''/t/p2''\<rparr>,
                                     \<lparr>path = ''p3'', abs_path = Some ''/t/p3''\<rparr>]\<rparr>),
            (''y'', \<lparr>original = \<lparr>path = ''p4'', abs_path = Some ''/t/p4''\<rparr>, sd_duplicates = []\<rparr>)]"
  have h: "sd_pass ?D (\<lambda>bytes. bytes) False [] ?F ([], [])
           = Inr (?T, [''/t/p1'', ''/t/p2'', ''/t/p3'', ''/t/p4''])"
    by (simp add: file_checksum_def compute_xxhash64_def hashes_file_def sd_insert_def entry_of_def)
  have fx: "first_seen ?D (\<lambda>bytes. bytes) False [] ?F ''x''
            = [\<lparr>path = ''p1'', abs_path = Some ''/t/p1''\<rparr>, \<lparr>path = ''p2'', abs_path = Some ''/t/p2''\<rparr>,
               \<lparr>path = ''p3'', abs_path = Some ''/t/p3''\<rparr>]"
    by (simp add: first_seen_def file_checksum_def compute_xxhash64_def entry_of_def)
  have fy: "first_seen ?D (\<lambda>bytes. bytes) False [] ?F ''y''
            = [\<lparr>path = ''p4'', abs_path = Some ''/t/p4''\<rparr>]"
    by (simp add: first_seen_def file_checksum_def compute_xxhash64_def entry_of_def)
  from single_tree_groups[OF h, of "''x''"] single_tree_groups[OF h, of "''y''"] h
  show ?thesis by (simp only: fx fy) simp
qed

section \<open>The two-tree resolver\<close>

lemma two_tree_fold:
  "distinct (map fst other) \<Longrightarrow> fst ` set other \<inter> fst ` set acc = {} \<Longrightarrow>
   foldl (\<lambda>dups (checksum, info_list).
            case map_of base_checksums checksum of
              None \<Rightarrow> dups
            | Some b \<Rightarrow> dict_set checksum \<lparr>base = b, duplicates = info_list\<rparr> dups) acc other
   = acc @ concat (map (\<lambda>(checksum, info_list).
                     case map_of base_checksums checksum of
                       None \<Rightarrow> []
                     | Some b \<Rightarrow> [(checksum, \<lparr>base = b, duplicates = info_list\<rparr>)]) other)"
proof (induction other arbitrary: acc)
  case Nil
  then show ?case by simp
next
  case (Cons p other)
  obtain c v where p: "p = (c, v)" by (cases p)
  from Cons.prems p have fresh: "c \<notin> fst ` set acc" by auto
  show ?case
  proof (cases "map_of base_checksums c")
    case None
    have "fst ` set other \<inter> fst ` set acc = {}" using Cons.prems by auto
    with Cons.IH[of acc] Cons.prems None p show ?thesis by simp
  next
    case (Some b)
    have "fst ` set other \<inter> fst ` set (acc @ [(c, \<lparr>base = b, duplicates = v\<rparr>)]) = {}"
      using Cons.prems p by auto
    with Cons.IH[of "acc @ [(c, \<lparr>base = b, duplicates = v\<rparr>)]"] Cons.prems Some p fresh
    show ?thesis by (simp add: dict_set_fresh)
  qed
qed

lemma two_tree_groups:
  assumes "distinct (map fst other)"
  shows "fst (summarize_duplicates base_checksums other)
         = concat (map (\<lambda>(checksum, info_list).
                     case map_of base_checksums checksum of
                       None \<Rightarrow> []
                     | Some b \<Rightarrow> [(checksum, \<lparr>base = b, duplicates = info_list\<rparr>)]) other)"
  using two_tree_fold[OF assms, of "[]" base_checksums]
  by (simp add: summarize_duplicates_def)

lemma total_duplicates_concat:
  "total_duplicates (concat (map (\<lambda>(checksum, info_list).
                     case map_of base_checksums checksum of
                       None \<Rightarrow> []
                     | Some b \<Rightarrow> [(checksum, \<lparr>base = b, duplicates = info_list\<rparr>)]) other))
   = sum_list (map (\<lambda>(checksum, v).
        if checksum \<in> fst ` set base_checksums then py_len v else 0) other)"
proof (induction other)
  case Nil
  then show ?case by (simp add: total_duplicates_def)
next
  case (Cons p other)
  obtain c v where p: "p = (c, v)" by (cases p)
  have mem: "(c \<in> fst ` set base_checksums) = (map_of base_checksums c \<noteq> None)"
    by (simp add: map_of_eq_None_iff)
  from Cons.IH p show ?case
    by (cases "map_of base_checksums c") (simp_all add: total_duplicates_def mem)
qed

text \<open>
  Claim C4. For a comparison table whose values are lists, \<^verbatim>\<open>summarize_duplicates\<close> returns
  as total the sum of the list lengths, the duplicate count of \<^verbatim>\<open>display_summary\<close> is the
  sum of the list lengths over the digests that the canonical table has too, and the
  unique count is the difference of the two. For Canonical = {d1: fileA} and
  Comparison = {d1: [fileB, fileC], d2: [fileD]} the counts are 3, 2 and 1.
\<close>

theorem two_tree_counts:
  assumes "distinct (map fst comparison)"
  shows "(case summarize_duplicates canonical_tbl (map (\<lambda>(d, l). (d, Lst l)) comparison) of
            (dups, total_base_files, total_other_files) \<Rightarrow>
              total_other_files = sum_list (map (\<lambda>(d, l). int (length l)) comparison)
            \<and> total_duplicates dups
                = sum_list (map (\<lambda>(d, l). if d \<in> fst ` set canonical_tbl then int (length l) else 0)
                     comparison)
            \<and> total_unique_files_in_other_dir dups total_other_files
                = total_other_files - total_duplicates dups)
       \<and> (case summarize_duplicates [(''d1'', fileA)]
                 [(''d1'', Lst [fileB, fileC]), (''d2'', Lst [fileD])] of
            (dups, total_base_files, total_other_files) \<Rightarrow>
              total_other_files = 3 \<and> total_duplicates dups = 2
            \<and> total_unique_files_in_other_dir dups total_other_files = 1)"
proof -
  let ?other = "map (\<lambda>(d, l). (d, Lst l)) comparison"
  have keys: "map fst ?other = map fst comparison"
    by (induction comparison) auto
  have dist: "distinct (map fst ?other)" unfolding keys by (rule assms)
  have a: "snd (snd (summarize_duplicates canonical_tbl ?other))
           = sum_list (map (\<lambda>(d, l). int (length l)) comparison)"
    by (induction comparison) (auto simp: summarize_duplicates_def)
  have "total_duplicates (fst (summarize_duplicates canonical_tbl ?other))
        = sum_list (map (\<lambda>(checksum, v).
            if checksum \<in> fst ` set canonical_tbl then py_len v else 0) ?other)"
    by (simp only: two_tree_groups[OF dist] total_duplicates_concat)
  also have "\<dots> = sum_list (map (\<lambda>(d, l). if d \<in> fst ` set canonical_tbl then int (length l) else 0)
                     comparison)"
    by (induction comparison) auto
  finally have b: "total_duplicates (fst (summarize_duplicates canonical_tbl ?other))
        = sum_list (map (\<lambda>(d, l). if d \<in> fst ` set canonical_tbl then int (length l) else 0)
                     comparison)" .
  have c: "(case summarize_duplicates [(''d1'', fileA)]
                 [(''d1'', Lst [fileB, fileC]), (''d2'', Lst [fileD])] of
            (dups, total_base_files, total_other_files) \<Rightarrow>
              total_other_files = 3 \<and> total_duplicates dups = 2
            \<and> total_unique_files_in_other_dir dups total_other_files = 1)"
    by (simp add: summarize_duplicates_def total_duplicates_def
        total_unique_files_in_other_dir_def)
  from a b c show ?thesis
    by (simp add: case_prod_beta total_unique_files_in_other_dir_def)
qed

theorem two_tree_counts_witness:
  "distinct (map fst [(''d1'', [\<lparr>path = ''b'', abs_path = None\<rparr>, \<lparr>path = ''c'', abs_path = None\<rparr>]),
                      (''d2'', [\<lparr>path = ''d'', abs_path = None\<rparr>])])
   \<and> total_duplicates (fst (summarize_duplicates [(''d1'', \<lparr>path = ''a'', abs_path = None\<rparr>)]
            (map (\<lambda>(d, l). (d, Lst l))
               [(''d1'', [\<lparr>path = ''b'', abs_path = None\<rparr>, \<lparr>path = ''c'', abs_path = None\<rparr>]),
                (''d2'', [\<lparr>path = ''d'', abs_path = None\<rparr>])]))) = 2
   \<and> snd (snd (summarize_duplicates [(''d1'', \<lparr>path = ''a'', abs_path = None\<rparr>)]
            (map (\<lambda>(d, l). (d, Lst l))
               [(''d1'', [\<lparr>path = ''b'', abs_path = None\<rparr>, \<lparr>path = ''c'', abs_path = None\<rparr>]),
                (''d2'', [\<lparr>path = ''d'', abs_path = None\<rparr>])]))) = 3"
proof -
  let ?cmp = "[(''d1'', [\<lparr>path = ''b'', abs_path = None\<rparr>, \<lparr>path = ''c'', abs_path = None\<rparr>]),
               (''d2'', [\<lparr>path = ''d'', abs_path = None\<rparr>])]"
  let ?can = "[(''d1'', \<lparr>path = ''a'', abs_path = None\<rparr>)]"
  have h: "distinct (map fst ?cmp)" by simp
  have s1: "sum_list (map (\<lambda>(d, l). int (length l)) ?cmp) = 3" by simp
  have s2: "sum_list (map (\<lambda>(d, l). if d \<in> fst ` set ?can then int (length l) else 0) ?cmp) = 2"
    by simp
  from two_tree_counts[OF h, of ?can] h show ?thesis
    unfolding s1 s2 case_prod_beta by blast
qed

text \<open>
  Claim C1, at a comparison tree with two files of the content of the canonical file: the
  comparison table of \<^verbatim>\<open>calculate_checksums\<close> holds one entry for the digest (the file
  walked last, not a list of both), the group that \<^verbatim>\<open>summarize_duplicates\<close> emits from it
  has that single entry as its duplicates, and after saving and loading the table the
  group's duplicates list has length one, not two. The duplicate count that
  \<^verbatim>\<open>display_summary\<close> derives for the search command is then the number of keys of the
  entry dictionary.
\<close>

theorem comparison_table_keeps_one_file_per_digest:
  "calculate_checksums
      (map_of [(''/b/a'', ''x''), (''/o/b'', ''x''), (''/o/c'', ''x'')]) (\<lambda>bytes. bytes)
      [(''a'', ''/b/a'')] [(''b'', ''/o/b''), (''c'', ''/o/c'')] None False
    = Inr ([(''x'', \<lparr>path = ''a'', abs_path = Some ''/b/a''\<rparr>)],
           [(''x'', \<lparr>path = ''c'', abs_path = Some ''/o/c''\<rparr>)],
           1, 2, [''/b/a'', ''/o/b'', ''/o/c''])
   \<and> fst (summarize_duplicates [(''x'', \<lparr>path = ''a'', abs_path = Some ''/b/a''\<rparr>)]
            (as_values [(''x'', \<lparr>path = ''c'', abs_path = Some ''/o/c''\<rparr>)]))
     = [(''x'', \<lparr>base = \<lparr>path = ''a'', abs_path = Some ''/b/a''\<rparr>,
                 duplicates = Rec \<lparr>path = ''c'', abs_path = Some ''/o/c''\<rparr>\<rparr>)]
   \<and> load_checksums (Some (save_checksums [(''x'', \<lparr>path = ''a'', abs_path = Some ''/b/a''\<rparr>)]
                                           [(''x'', \<lparr>path = ''c'', abs_path = Some ''/o/c''\<rparr>)]))
     = (([(''x'', \<lparr>path = ''a'', abs_path = None\<rparr>)],
         [(''x'', Lst [\<lparr>path = ''c'', abs_path = None\<rparr>])]), None)
   \<and> fst (summarize_duplicates [(''x'', \<lparr>path = ''a'', abs_path = None\<rparr>)]
            [(''x'', Lst [\<lparr>path = ''c'', abs_path = None\<rparr>])])
     = [(''x'', \<lparr>base = \<lparr>path = ''a'', abs_path = None\<rparr>,
                 duplicates = Lst [\<lparr>path = ''c'', abs_path = None\<rparr>]\<rparr>)]
   \<and> total_duplicates
        (fst (summarize_duplicates [(''x'', \<lparr>path = ''a'', abs_path = Some ''/b/a''\<rparr>)]
                (as_values [(''x'', \<lparr>path = ''c'', abs_path = Some ''/o/c''\<rparr>)]))) = 2"
  by (simp add: calculate_checksums_def file_checksum_def compute_xxhash64_def hashes_file_def
      entry_of_def summarize_duplicates_def as_values_def load_checksums_def save_checksums_def
      strip_def is_space_def other_append_def total_duplicates_def)

section \<open>Loading a malformed checksum file\<close>

text \<open>
  Claim C5 as stated fails for \<^verbatim>\<open>load_checksums\<close>: on a file whose second line has no tab
  it returns the table built from the first line.
\<close>

theorem load_checksums_partial_counterexample:
  "load_checksums (Some [''BASE'' @ [CHR 0x09] @ ''d1'' @ [CHR 0x09] @ ''a'' @ [CHR 0x0A],
                         ''garbage'' @ [CHR 0x0A]])
   = (([(''d1'', \<lparr>path = ''a'', abs_path = None\<rparr>)], []), Some ValueError)"
  by (simp add: load_checksums_def strip_def is_space_def)

lemma three_fields:
  "length xs = 3 \<Longrightarrow> \<exists>a b c. xs = [a, b, c]"
  by (cases xs; cases "tl xs"; cases "tl (tl xs)") auto

lemma not_three_fields:
  "length xs \<noteq> 3 \<Longrightarrow> (case xs of [a, b, c] \<Rightarrow> f a b c | _ \<Rightarrow> g) = g"
  by (auto split: list.splits)

lemma load_existing_loop_fails:
  assumes "length (split_tab (strip bad)) \<noteq> 3"
  shows "isl (load_existing_loop (pre @ bad # post) acc)"
proof (induction pre arbitrary: acc)
  case Nil
  from assms show ?case by (simp add: not_three_fields)
next
  case (Cons l pre)
  show ?case
  proof (cases "length (split_tab (strip l)) = 3")
    case True
    then obtain a b c where "split_tab (strip l) = [a, b, c]"
      using three_fields by blast
    with Cons.IH show ?thesis by simp
  next
    case False
    then show ?thesis by (simp add: not_three_fields)
  qed
qed

lemma load_checksums_loop_stops:
  assumes "\<forall>l \<in> set pre. length (split_tab (strip l)) = 3"
    and "length (split_tab (strip bad)) \<noteq> 3"
  shows "load_checksums_loop (pre @ bad # post) acc
         = (fst (load_checksums_loop pre acc), Some ValueError)
       \<and> snd (load_checksums_loop pre acc) = None"
  using assms(1)
proof (induction pre arbitrary: acc)
  case Nil
  from assms(2) show ?case by (simp add: not_three_fields)
next
  case (Cons l pre)
  then obtain a b c where "split_tab (strip l) = [a, b, c]"
    using three_fields[of "split_tab (strip l)"] by auto
  with Cons show ?case by simp
qed

text \<open>
  Claim C5, amended. On a file with a line that does not split into three tab-separated
  fields \<^verbatim>\<open>load_existing_checksums\<close> raises and returns no table, while
  \<^verbatim>\<open>load_checksums\<close> stops at the first such line, reports a ValueError and returns the
  tables built from the lines before it.
\<close>

theorem malformed_record_load:
  assumes "\<forall>l \<in> set pre. length (split_tab (strip l)) = 3"
    and "length (split_tab (strip bad)) \<noteq> 3"
  shows "isl (load_existing_checksums (pre @ bad # post))
       \<and> load_checksums (Some (pre @ bad # post))
           = (fst (load_checksums (Some pre)), Some ValueError)
       \<and> snd (load_checksums (Some pre)) = None"
  using load_existing_loop_fails[OF assms(2)] load_checksums_loop_stops[OF assms]
  by (simp add: load_existing_checksums_def load_checksums_def)

theorem malformed_record_load_witness:
  "length (split_tab (strip (''BASE'' @ [CHR 0x09] @ ''d1'' @ [CHR 0x09] @ ''a'' @ [CHR 0x0A]))) = 3
   \<and> length (split_tab (strip (''garbage'' @ [CHR 0x0A]))) \<noteq> 3
   \<and> isl (load_existing_checksums
        ([''BASE'' @ [CHR 0x09] @ ''d1'' @ [CHR 0x09] @ ''a'' @ [CHR 0x0A]]
           @ (''garbage'' @ [CHR 0x0A]) # []))
   \<and> load_checksums (Some ([''BASE'' @ [CHR 0x09] @ ''d1'' @ [CHR 0x09] @ ''a'' @ [CHR 0x0A]]
           @ (''garbage'' @ [CHR 0x0A]) # []))
      = (([(''d1'', \<lparr>path = ''a'', abs_path = None\<rparr>)], []), Some ValueError)"
proof -
  let ?pre = "[''BASE'' @ [CHR 0x09] @ ''d1'' @ [CHR 0x09] @ ''a'' @ [CHR 0x0A]]"
  let ?bad = "''garbage'' @ [CHR 0x0A]"
  have h1: "\<forall>l \<in> set ?pre. length (split_tab (strip l)) = 3"
    by (simp add: strip_def is_space_def)
  have h2: "length (split_tab (strip ?bad)) \<noteq> 3"
    by (simp add: strip_def is_space_def)
  have pre: "fst (load_checksums (Some ?pre)) = ([(''d1'', \<lparr>path = ''a'', abs_path = None\<rparr>)], [])"
    by (simp add: load_checksums_def strip_def is_space_def)
  have h1': "length (split_tab (strip (''BASE'' @ [CHR 0x09] @ ''d1'' @ [CHR 0x09] @ ''a'' @ [CHR 0x0A]))) = 3"
    using h1 by simp
  from malformed_record_load[OF h1 h2, of "[]"] h1' h2 show ?thesis
    unfolding pre by blast
qed

section \<open>The interactive answers that delete several items\<close>

text \<open>
  Claim C2, at a queue of five pairs whose files all exist, with the answers y3, n, y.
  After the first file is removed the cursor is advanced, and the loop of the skip count
  advances it again before it removes: the files removed are the first, third, fourth and
  fifth. The second is never processed, the fourth is removed by the y3 run and then
  prompted for again, and the total reported is 4.
\<close>

theorem y3_skips_second_item:
  "(let st = delete_duplicates (\<lambda>dir p. dir @ ''/'' @ p)
        [(''d'', \<lparr>base = \<lparr>path = ''k'', abs_path = None\<rparr>,
                 duplicates = Lst [\<lparr>path = ''f1'', abs_path = None\<rparr>, \<lparr>path = ''f2'', abs_path = None\<rparr>,
                   \<lparr>path = ''f3'', abs_path = None\<rparr>, \<lparr>path = ''f4'', abs_path = None\<rparr>,
                   \<lparr>path = ''f5'', abs_path = None\<rparr>]\<rparr>)]
        ''B'' ''O'' 1 True 1 [''y3'', ''n'', ''y''] (\<lambda>p. Present)
    in out st = [TotalToDelete 5, ConfirmationEnabled,
                 NextFiles, NextDuplicate 1 ''O/f1'', NextBase ''B/k'',
                 OsRemove ''O/f1'', Deleted ''O/f1'',
                 OsRemove ''O/f3'', Deleted ''O/f3'',
                 OsRemove ''O/f4'', Deleted ''O/f4'',
                 NextFiles, NextDuplicate 4 ''O/f4'', NextBase ''B/k'',
                 Skipping ''O/f4'',
                 NextFiles, NextDuplicate 5 ''O/f5'', NextBase ''B/k'',
                 OsRemove ''O/f5'', Deleted ''O/f5'',
                 TotalDeleted 4, ReminderChecksum]
     \<and> map (fsys st) [''O/f1'', ''O/f2'', ''O/f3'', ''O/f4'', ''O/f5'']
         = [Absent, Present, Absent, Absent, Absent]
     \<and> total_deleted st = 4 \<and> raised st = None)"
  by code_simp

text \<open>
  Claim C3, at a queue of three pairs whose files all exist, with the answer yall: the
  first and the third file are removed, the second is left unprocessed, and the loop ends.
\<close>

theorem yall_skips_next_item:
  "(let st = delete_duplicates (\<lambda>dir p. dir @ ''/'' @ p)
        [(''d'', \<lparr>base = \<lparr>path = ''k'', abs_path = None\<rparr>,
                 duplicates = Lst [\<lparr>path = ''f1'', abs_path = None\<rparr>, \<lparr>path = ''f2'', abs_path = None\<rparr>,
                   \<lparr>path = ''f3'', abs_path = None\<rparr>]\<rparr>)]
        ''B'' ''O'' 1 True 1 [''yall''] (\<lambda>p. Present)
    in out st = [TotalToDelete 3, ConfirmationEnabled,
                 NextFiles, NextDuplicate 1 ''O/f1'', NextBase ''B/k'',
                 OsRemove ''O/f1'', Deleted ''O/f1'',
                 OsRemove ''O/f3'', Deleted ''O/f3'',
                 TotalDeleted 2, ReminderChecksum]
     \<and> map (fsys st) [''O/f1'', ''O/f2'', ''O/f3''] = [Absent, Present, Absent]
     \<and> idx st = 3 \<and> total_deleted st = 2 \<and> raised st = None)"
  by code_simp

section \<open>What the driver removes\<close>

lemma keeps_to_simps [simp]:
  "keeps_to T fs0 (st\<lparr>idx := i\<rparr>) = keeps_to T fs0 st"
  "keeps_to T fs0 (st\<lparr>skip_count := k\<rparr>) = keeps_to T fs0 st"
  "keeps_to T fs0 (st\<lparr>raised := r\<rparr>) = keeps_to T fs0 st"
  by (simp_all add: keeps_to_def)

lemma keeps_to_print:
  "\<forall>p. OsRemove p \<notin> set es \<Longrightarrow> keeps_to T fs0 (st\<lparr>out := out st @ es\<rparr>) = keeps_to T fs0 st"
  by (auto simp: keeps_to_def)

lemma keeps_to_remove_file:
  "p \<in> T \<Longrightarrow> keeps_to T fs0 st \<Longrightarrow> keeps_to T fs0 (remove_file p st)"
  by (auto simp: keeps_to_def remove_file_def split: fstat.splits)

lemma keeps_to_preview:
  "keeps_to T fs0 st \<Longrightarrow> keeps_to T fs0 (preview rd rb j its st)"
  by (induction its arbitrary: j st) (auto simp: keeps_to_print split: option.splits)

lemma keeps_to_skip_next:
  "keeps_to T fs0 st \<Longrightarrow> keeps_to T fs0 (skip_next rd items n st)"
  by (induction n arbitrary: st) (auto simp: keeps_to_print split: option.splits)

lemma keeps_to_skip_rest:
  "keeps_to T fs0 st \<Longrightarrow> keeps_to T fs0 (skip_rest rd its st)"
  by (induction its arbitrary: st) (auto simp: keeps_to_print split: option.splits)

lemma nth_target:
  "i < length items \<Longrightarrow> duplicate_path rd (items ! i) = Some p \<Longrightarrow> p \<in> targets rd items"
  by (auto simp: targets_def intro: bexI[of _ "items ! i"])

lemma keeps_to_auto_delete:
  "keeps_to (targets rd items) fs0 st \<Longrightarrow> keeps_to (targets rd items) fs0 (auto_delete rd items n st)"
proof (induction n arbitrary: st)
  case 0
  then show ?case by simp
next
  case (Suc n)
  show ?case
  proof (cases "idx st + 1 \<ge> length items")
    case True
    with Suc.prems show ?thesis by simp
  next
    case False
    show ?thesis
    proof (cases "duplicate_path rd (items ! (idx st + 1))")
      case None
      with False Suc.prems show ?thesis by simp
    next
      case (Some p)
      with False have "p \<in> targets rd items"
        using nth_target[of "idx st + 1" items rd p] by simp
      with Suc.prems have "keeps_to (targets rd items) fs0 (remove_file p (st\<lparr>idx := idx st + 1\<rparr>))"
        by (simp add: keeps_to_remove_file)
      from Suc.IH[OF this] False Some show ?thesis by simp
    qed
  qed
qed

lemma keeps_to_delete_current:
  "p \<in> targets rd items \<Longrightarrow> keeps_to (targets rd items) fs0 st \<Longrightarrow>
   keeps_to (targets rd items) fs0 (delete_current rd items p st)"
  by (simp add: delete_current_def Let_def keeps_to_remove_file keeps_to_auto_delete)

lemma keeps_to_respond:
  "p \<in> targets rd items \<Longrightarrow> keeps_to (targets rd items) fs0 st \<Longrightarrow>
   keeps_to (targets rd items) fs0 (snd (respond rd items p u st))"
  by (simp add: respond_def keeps_to_delete_current keeps_to_skip_next keeps_to_skip_rest
      keeps_to_print split: sum.splits)

lemma keeps_to_loop_head:
  assumes "idx st < length items" and "keeps_to (targets rd items) fs0 st"
  shows "keeps_to (targets rd items) fs0 (snd (loop_head rd rb list_next items st))
       \<and> (\<forall>p. fst (loop_head rd rb list_next items st) = Some p \<longrightarrow> p \<in> targets rd items)"
  using assms
  by (auto simp: loop_head_def keeps_to_preview keeps_to_print intro: nth_target
      split: option.splits)

lemma keeps_to_interactive:
  "keeps_to (targets rd items) fs0 st \<Longrightarrow>
   keeps_to (targets rd items) fs0 (interactive rd rb list_next items answers st)"
proof (induction answers arbitrary: st)
  case Nil
  show ?case
  proof (cases "idx st \<ge> length items")
    case True
    with Nil show ?thesis by simp
  next
    case False
    then have "idx st < length items" by simp
    from keeps_to_loop_head[OF this Nil, of rb list_next] False show ?thesis
      by (auto split: prod.splits option.splits)
  qed
next
  case (Cons a answers)
  show ?case
  proof (cases "idx st \<ge> length items")
    case True
    with Cons.prems show ?thesis by simp
  next
    case False
    then have lt: "idx st < length items" by simp
    obtain po st1 where lh: "loop_head rd rb list_next items st = (po, st1)"
      by (cases "loop_head rd rb list_next items st")
    from keeps_to_loop_head[OF lt Cons.prems, of rb list_next] lh
    have k1: "keeps_to (targets rd items) fs0 st1"
      and pt: "\<And>p. po = Some p \<Longrightarrow> p \<in> targets rd items" by auto
    show ?thesis
    proof (cases po)
      case None
      with False lh k1 show ?thesis by simp
    next
      case (Some p)
      obtain brk st2 where r: "respond rd items p (lower (strip a)) st1 = (brk, st2)"
        by (cases "respond rd items p (lower (strip a)) st1")
      from keeps_to_respond[OF pt[OF Some] k1, of "lower (strip a)"] r
      have k2: "keeps_to (targets rd items) fs0 st2" by simp
      from Cons.IH[OF k2] k1 k2 False lh Some r show ?thesis by simp
    qed
  qed
qed

lemma keeps_to_batch_loop:
  "set its \<subseteq> set items \<Longrightarrow> keeps_to (targets rd items) fs0 st \<Longrightarrow>
   keeps_to (targets rd items) fs0 (batch_loop rd rb tot sleep_time i its st)"
proof (induction its arbitrary: i st)
  case Nil
  then show ?case by simp
next
  case (Cons it its)
  show ?case
  proof (cases "duplicate_path rd it")
    case None
    with Cons.prems show ?thesis by simp
  next
    case (Some p)
    with Cons.prems(1) have pt: "p \<in> targets rd items" by (auto simp: targets_def)
    let ?st0 = "st\<lparr>out := out st @ [Deleting i tot p, BaseFile (rb (path (canonical it))),
                                       FilesLeft (int tot - int i)]\<rparr>"
    have "keeps_to (targets rd items) fs0 ?st0"
      using Cons.prems(2) by (simp add: keeps_to_print)
    then have k1: "keeps_to (targets rd items) fs0 (remove_file p ?st0)"
      by (rule keeps_to_remove_file[OF pt])
    then have k2: "keeps_to (targets rd items) fs0
        (if int tot - int i > 0 \<and> sleep_time > 0
         then (remove_file p ?st0)\<lparr>out := out (remove_file p ?st0) @ [Sleep]\<rparr>
         else remove_file p ?st0)"
      by (simp add: keeps_to_print)
    from Cons.prems(1) have sub: "set its \<subseteq> set items" by simp
    from Cons.IH[OF sub k2] Some show ?thesis by (simp add: Let_def)
  qed
qed

lemma keeps_to_init:
  "\<forall>p. OsRemove p \<notin> set es \<Longrightarrow>
   keeps_to T fs0 \<lparr>idx = 0, skip_count = 0, total_deleted = 0, fsys = fs0, out = es, raised = r\<rparr>"
  by (simp add: keeps_to_def)

lemma keeps_to_report:
  "\<forall>q. reminder \<noteq> OsRemove q \<Longrightarrow> keeps_to T fs0 st \<Longrightarrow> keeps_to T fs0 (report reminder st)"
  by (auto simp: report_def keeps_to_def)

lemma keeps_to_core:
  assumes "\<forall>q. reminder \<noteq> OsRemove q"
  shows "keeps_to (targets rd items) fs0
     (delete_core rd rb reminder items sleep_time confirm list_next answers fs0)"
proof -
  have i: "\<And>es st. \<forall>p. OsRemove p \<notin> set es \<Longrightarrow>
      keeps_to (targets rd items) fs0
        (report reminder (interactive rd rb list_next items answers
           \<lparr>idx = 0, skip_count = 0, total_deleted = 0, fsys = fs0, out = es, raised = None\<rparr>))"
    by (intro keeps_to_report[OF assms] keeps_to_interactive keeps_to_init)
  have b: "\<And>es sl k. \<forall>p. OsRemove p \<notin> set es \<Longrightarrow>
      keeps_to (targets rd items) fs0
        (report reminder (batch_loop rd rb (length items) sl k items
           \<lparr>idx = 0, skip_count = 0, total_deleted = 0, fsys = fs0, out = es, raised = None\<rparr>))"
    by (intro keeps_to_report[OF assms] keeps_to_batch_loop keeps_to_init) simp_all
  show ?thesis
    unfolding delete_core_def Let_def
    by (simp add: i b keeps_to_init split: list.splits
        del: interactive.simps batch_loop.simps)
qed

lemma targets_two_tree:
  "(p \<in> targets rd (files_to_delete dups))
   = (\<exists>(c, g) \<in> set dups. \<exists>l e. duplicates g = Lst l \<and> e \<in> set l \<and> p = rd (path e))"
proof
  assume "p \<in> targets rd (files_to_delete dups)"
  then obtain it where it: "it \<in> set (files_to_delete dups)" "duplicate_path rd it = Some p"
    by (auto simp: targets_def)
  from it(1) obtain c g x where cg: "(c, g) \<in> set dups" "x \<in> set (elements (duplicates g))"
    "it = \<lparr>canonical = base g, duplicate = x\<rparr>"
    by (auto simp: files_to_delete_def)
  from it(2) cg(3) obtain e where e: "x = Entry e" "p = rd (path e)"
    by (cases x) (auto simp: duplicate_path_def)
  from cg(2) e(1) obtain l where "duplicates g = Lst l" "e \<in> set l"
    by (cases "duplicates g") auto
  with cg(1) e(2) show "\<exists>(c, g) \<in> set dups. \<exists>l e. duplicates g = Lst l \<and> e \<in> set l \<and> p = rd (path e)"
    by blast
next
  assume "\<exists>(c, g) \<in> set dups. \<exists>l e. duplicates g = Lst l \<and> e \<in> set l \<and> p = rd (path e)"
  then obtain c g l e where h: "(c, g) \<in> set dups" "duplicates g = Lst l" "e \<in> set l"
    "p = rd (path e)" by blast
  let ?it = "\<lparr>canonical = base g, duplicate = Entry e\<rparr>"
  from h(1,2,3) have "?it \<in> set (files_to_delete dups)"
    by (force simp: files_to_delete_def)
  moreover from h(4) have "duplicate_path rd ?it = Some p"
    by (simp add: duplicate_path_def)
  ultimately show "p \<in> targets rd (files_to_delete dups)"
    unfolding targets_def by blast
qed

lemma targets_single_dir:
  "(p \<in> targets rd (files_to_delete_single_dir dups))
   = (\<exists>(c, g) \<in> set dups. \<exists>e \<in> set (sd_duplicates g). p = rd (path e))"
proof
  assume "p \<in> targets rd (files_to_delete_single_dir dups)"
  then obtain it where it: "it \<in> set (files_to_delete_single_dir dups)"
    "duplicate_path rd it = Some p"
    by (auto simp: targets_def)
  from it(1) obtain c g e where cg: "(c, g) \<in> set dups" "e \<in> set (sd_duplicates g)"
    "it = \<lparr>canonical = original g, duplicate = Entry e\<rparr>"
    by (auto simp: files_to_delete_single_dir_def)
  from it(2) cg(3) have "p = rd (path e)" by (simp add: duplicate_path_def)
  with cg(1,2) show "\<exists>(c, g) \<in> set dups. \<exists>e \<in> set (sd_duplicates g). p = rd (path e)"
    by blast
next
  assume "\<exists>(c, g) \<in> set dups. \<exists>e \<in> set (sd_duplicates g). p = rd (path e)"
  then obtain c g e where h: "(c, g) \<in> set dups" "e \<in> set (sd_duplicates g)" "p = rd (path e)"
    by blast
  let ?it = "\<lparr>canonical = original g, duplicate = Entry e\<rparr>"
  from h(1,2) have "?it \<in> set (files_to_delete_single_dir dups)"
    by (force simp: files_to_delete_single_dir_def)
  moreover from h(3) have "duplicate_path rd ?it = Some p"
    by (simp add: duplicate_path_def)
  ultimately show "p \<in> targets rd (files_to_delete_single_dir dups)"
    unfolding targets_def by blast
qed

text \<open>
  Claim C10. In every run of either deletion routine, whatever the mode, the answers and
  the file system, each path given to \<^verbatim>\<open>os.remove\<close> is the resolved path of an entry of some
  group's duplicates list, and a file at any other path (in particular the canonical file
  of a group, when its resolved path is not that of a duplicate) is left as it was.
\<close>

theorem removal_only_of_duplicates:
  "(OsRemove p \<in> set (out (delete_duplicates resolve dups base_dir other_dir sleep_time confirm
                              list_next answers fsa))
      \<longrightarrow> (\<exists>(c, g) \<in> set dups. \<exists>l e. duplicates g = Lst l \<and> e \<in> set l
              \<and> p = resolve other_dir (path e)))
   \<and> (\<not> (\<exists>(c, g) \<in> set dups. \<exists>l e. duplicates g = Lst l \<and> e \<in> set l
              \<and> q = resolve other_dir (path e))
      \<longrightarrow> fsys (delete_duplicates resolve dups base_dir other_dir sleep_time confirm
                  list_next answers fsa) q = fsa q)
   \<and> (OsRemove p \<in> set (out (delete_duplicates_single_dir resolve sdups directory sleep_time
                                confirm list_next answers fsa))
      \<longrightarrow> (\<exists>(c, g) \<in> set sdups. \<exists>e \<in> set (sd_duplicates g). p = resolve directory (path e)))
   \<and> (\<not> (\<exists>(c, g) \<in> set sdups. \<exists>e \<in> set (sd_duplicates g). q = resolve directory (path e))
      \<longrightarrow> fsys (delete_duplicates_single_dir resolve sdups directory sleep_time
                  confirm list_next answers fsa) q = fsa q)"
proof -
  have a: "keeps_to (targets (resolve other_dir) (files_to_delete dups)) fsa
      (delete_duplicates resolve dups base_dir other_dir sleep_time confirm list_next answers fsa)"
    unfolding delete_duplicates_def by (rule keeps_to_core) simp
  have b: "keeps_to (targets (resolve directory) (files_to_delete_single_dir sdups)) fsa
      (delete_duplicates_single_dir resolve sdups directory sleep_time confirm list_next
         answers fsa)"
    unfolding delete_duplicates_single_dir_def by (rule keeps_to_core) simp
  from a b show ?thesis
    unfolding keeps_to_def targets_two_tree targets_single_dir by blast
qed

theorem removal_only_of_duplicates_witness:
  "OsRemove ''O/f1'' \<in> set (out (delete_duplicates (\<lambda>dir p. dir @ ''/'' @ p)
        [(''d'', \<lparr>base = \<lparr>path = ''k'', abs_path = None\<rparr>,
                 duplicates = Lst [\<lparr>path = ''f1'', abs_path = None\<rparr>]\<rparr>)]
        ''B'' ''O'' 1 True 1 [''y''] (\<lambda>p. Present)))
   \<and> fsys (delete_duplicates (\<lambda>dir p. dir @ ''/'' @ p)
        [(''d'', \<lparr>base = \<lparr>path = ''k'', abs_path = None\<rparr>,
                 duplicates = Lst [\<lparr>path = ''f1'', abs_path = None\<rparr>]\<rparr>)]
        ''B'' ''O'' 1 True 1 [''y''] (\<lambda>p. Present)) ''B/k'' = Present
   \<and> fsys (delete_duplicates_single_dir (\<lambda>dir p. dir @ ''/'' @ p)
        [(''d'', \<lparr>original = \<lparr>path = ''k'', abs_path = None\<rparr>,
                 sd_duplicates = [\<lparr>path = ''f1'', abs_path = None\<rparr>]\<rparr>)]
        ''D'' 1 False 1 [] (\<lambda>p. Present)) ''D/k'' = Present"
proof -
  have h1: "OsRemove ''O/f1'' \<in> set (out (delete_duplicates (\<lambda>dir p. dir @ ''/'' @ p)
        [(''d'', \<lparr>base = \<lparr>path = ''k'', abs_path = None\<rparr>,
                 duplicates = Lst [\<lparr>path = ''f1'', abs_path = None\<rparr>]\<rparr>)]
        ''B'' ''O'' 1 True 1 [''y''] (\<lambda>p. Present)))"
    by code_simp
  have h2: "\<not> (\<exists>(c, g) \<in> set [(''d'', \<lparr>base = \<lparr>path = ''k'', abs_path = None\<rparr>,
                 duplicates = Lst [\<lparr>path = ''f1'', abs_path = None\<rparr>]\<rparr>)].
         \<exists>l e. duplicates g = Lst l \<and> e \<in> set l \<and> ''B/k'' = (\<lambda>dir p. dir @ ''/'' @ p) ''O'' (path e))"
    by simp
  have h3: "\<not> (\<exists>(c, g) \<in> set [(''d'', \<lparr>original = \<lparr>path = ''k'', abs_path = None\<rparr>,
                 sd_duplicates = [\<lparr>path = ''f1'', abs_path = None\<rparr>]\<rparr>)].
         \<exists>e \<in> set (sd_duplicates g). ''D/k'' = (\<lambda>dir p. dir @ ''/'' @ p) ''D'' (path e))"
    by simp
  note t = removal_only_of_duplicates[where resolve = "\<lambda>dir p. dir @ ''/'' @ p"
      and dups = "[(''d'', \<lparr>base = \<lparr>path = ''k'', abs_path = None\<rparr>,
                 duplicates = Lst [\<lparr>path = ''f1'', abs_path = None\<rparr>]\<rparr>)]"
      and sdups = "[(''d'', \<lparr>original = \<lparr>path = ''k'', abs_path = None\<rparr>,
                 sd_duplicates = [\<lparr>path = ''f1'', abs_path = None\<rparr>]\<rparr>)]"
      and other_dir = "''O''" and directory = "''D''" and q = "''B/k''" and fsa = "\<lambda>p. Present"]
  note u = removal_only_of_duplicates[where resolve = "\<lambda>dir p. dir @ ''/'' @ p"
      and sdups = "[(''d'', \<lparr>original = \<lparr>path = ''k'', abs_path = None\<rparr>,
                 sd_duplicates = [\<lparr>path = ''f1'', abs_path = None\<rparr>]\<rparr>)]"
      and directory = "''D''" and q = "''D/k''" and fsa = "\<lambda>p. Present"]
  from t h2 have c2: "fsys (delete_duplicates (\<lambda>dir p. dir @ ''/'' @ p)
        [(''d'', \<lparr>base = \<lparr>path = ''k'', abs_path = None\<rparr>,
                 duplicates = Lst [\<lparr>path = ''f1'', abs_path = None\<rparr>]\<rparr>)]
        ''B'' ''O'' 1 True 1 [''y''] (\<lambda>p. Present)) ''B/k'' = Present"
    by blast
  from u h3 have c3: "fsys (delete_duplicates_single_dir (\<lambda>dir p. dir @ ''/'' @ p)
        [(''d'', \<lparr>original = \<lparr>path = ''k'', abs_path = None\<rparr>,
                 sd_duplicates = [\<lparr>path = ''f1'', abs_path = None\<rparr>]\<rparr>)]
        ''D'' 1 False 1 [] (\<lambda>p. Present)) ''D/k'' = Present"
    by blast
  from h1 c2 c3 show ?thesis by blast
qed

section \<open>Targets that are missing\<close>


lemma same_course_fields [simp]:
  "same_course st st' \<Longrightarrow> same_course (st\<lparr>idx := i\<rparr>) (st'\<lparr>idx := i\<rparr>)"
  "same_course st st' \<Longrightarrow> same_course (st\<lparr>skip_count := k\<rparr>) (st'\<lparr>skip_count := k\<rparr>)"
  "same_course st st' \<Longrightarrow> same_course (st\<lparr>raised := r\<rparr>) (st'\<lparr>raised := r\<rparr>)"
  "same_course st st' \<Longrightarrow> same_course (st\<lparr>idx := i, raised := r\<rparr>) (st'\<lparr>idx := i, raised := r\<rparr>)"
  by (simp_all add: same_course_def)

















section \<open>How a run ends\<close>




lemma remove_file_ctl [simp]:
  "raised (remove_file p st) = raised st"
  "idx (remove_file p st) = idx st"
  "skip_count (remove_file p st) = skip_count st"
  by (simp_all add: remove_file_def split: fstat.splits)



















section \<open>Reusing a saved table\<close>

text \<open>
  Claim C7 as stated fails on a canonical tree with two files of the same content: the
  table keeps one entry per digest, only the path of the file walked last is saved, and
  the second run hashes the other file again.
\<close>

theorem reuse_rehashes_counterexample:
  "calculate_checksums
      (map_of [(''/b/a'', ''x''), (''/b/b'', ''x''), (''/o/c'', ''y'')])
      (\<lambda>bytes. if bytes = ''x'' then ''d1'' else ''d2'')
      [(''a'', ''/b/a''), (''b'', ''/b/b'')] [(''c'', ''/o/c'')] None True
    = Inr ([(''d1'', \<lparr>path = ''b'', abs_path = Some ''/b/b''\<rparr>)],
           [(''d2'', \<lparr>path = ''c'', abs_path = Some ''/o/c''\<rparr>)],
           2, 1, [''/b/a'', ''/b/b'', ''/o/c''])
   \<and> calculate_checksums
      (map_of [(''/b/a'', ''x''), (''/b/b'', ''x''), (''/o/c'', ''y'')])
      (\<lambda>bytes. if bytes = ''x'' then ''d1'' else ''d2'')
      [(''a'', ''/b/a''), (''b'', ''/b/b'')] [(''c'', ''/o/c'')]
      (Some (save_checksums [(''d1'', \<lparr>path = ''b'', abs_path = Some ''/b/b''\<rparr>)]
                            [(''d2'', \<lparr>path = ''c'', abs_path = Some ''/o/c''\<rparr>)])) True
    = Inr ([(''d1'', \<lparr>path = ''b'', abs_path = Some ''/b/b''\<rparr>)],
           [(''d2'', \<lparr>path = ''c'', abs_path = Some ''/o/c''\<rparr>)],
           2, 1, [''/b/a''])"
  by code_simp

lemma split_tab_no_tab: "CHR 0x09 \<notin> set w \<Longrightarrow> split_tab w = [w]"
  by (induction w) auto

lemma split_tab_append:
  "CHR 0x09 \<notin> set w \<Longrightarrow> split_tab (w @ CHR 0x09 # rest) = w # split_tab rest"
  by (induction w) auto

lemma strip_line:
  assumes "s \<noteq> []" and "\<not> is_space (hd s)" and "\<not> is_space (last s)"
  shows "strip (s @ [CHR 0x0A]) = s"
proof -
  from assms(1,2) have a: "dropWhile is_space (s @ [CHR 0x0A]) = s @ [CHR 0x0A]"
    by (cases s) simp_all
  have nl: "is_space (CHR 0x0A)" by (simp add: is_space_def)
  from assms(1,3) have b: "dropWhile is_space (rev s) = rev s"
    by (cases "rev s") (simp_all add: last_rev[symmetric] hd_rev)
  show ?thesis by (simp add: strip_def a nl b)
qed

lemma clean_no_tab: "clean_field s \<Longrightarrow> CHR 0x09 \<notin> set s"
  by (auto simp: clean_field_def list_all_iff)

lemma parse_line:
  assumes "clean_field c" and "clean_field p" and "tag \<noteq> []" and "\<not> is_space (hd tag)"
    and "CHR 0x09 \<notin> set tag"
  shows "split_tab (strip (tag @ [CHR 0x09] @ c @ [CHR 0x09] @ p @ [CHR 0x0A])) = [tag, c, p]"
proof -
  let ?s = "tag @ [CHR 0x09] @ c @ [CHR 0x09] @ p"
  from assms(2) have pn: "p \<noteq> []" and pl: "\<not> is_space (last p)" by (simp_all add: clean_field_def)
  have "strip (?s @ [CHR 0x0A]) = ?s"
  proof (rule strip_line)
    show "?s \<noteq> []" using assms(3) by simp
    show "\<not> is_space (hd ?s)" using assms(3,4) by simp
    show "\<not> is_space (last ?s)" using pn pl by simp
  qed
  then have "strip (tag @ [CHR 0x09] @ c @ [CHR 0x09] @ p @ [CHR 0x0A]) = ?s" by simp
  moreover have "split_tab ?s = [tag, c, p]"
    using assms(5) clean_no_tab[OF assms(1)] clean_no_tab[OF assms(2)]
    by (simp add: split_tab_append split_tab_no_tab)
  ultimately show ?thesis by simp
qed

lemma load_base_lines:
  assumes "\<forall>(c, i) \<in> set tbl. clean_field c \<and> clean_field (path i)"
  shows "load_existing_loop
           (map (\<lambda>(checksum, info). ''BASE'' @ [CHR 0x09] @ checksum @ [CHR 0x09] @ path info @ [CHR 0x0A]) tbl
            @ rest) acc
         = load_existing_loop rest (acc\<lparr>BASE := by_path (BASE acc) tbl\<rparr>)"
  using assms
proof (induction tbl arbitrary: acc)
  case Nil
  then show ?case by (simp add: by_path_def)
next
  case (Cons x tbl)
  obtain c i where x: "x = (c, i)" by (cases x)
  from Cons.prems x have cl: "clean_field c" "clean_field (path i)" by auto
  have pl: "split_tab (strip (''BASE'' @ [CHR 0x09] @ c @ [CHR 0x09] @ path i @ [CHR 0x0A]))
            = [''BASE'', c, path i]"
    by (rule parse_line[OF cl]) (simp_all add: is_space_def)
  from Cons.prems have "\<forall>(c, i) \<in> set tbl. clean_field c \<and> clean_field (path i)" by simp
  from Cons.IH[OF this, of "acc\<lparr>BASE := dict_set (path i) c (BASE acc)\<rparr>"] pl x
  show ?case by (simp add: by_path_def)
qed

lemma load_other_lines:
  assumes "\<forall>(c, i) \<in> set tbl. clean_field c \<and> clean_field (path i)"
  shows "load_existing_loop
           (map (\<lambda>(checksum, info). ''OTHER'' @ [CHR 0x09] @ checksum @ [CHR 0x09] @ path info @ [CHR 0x0A]) tbl
            @ rest) acc
         = load_existing_loop rest (acc\<lparr>OTHER := by_path (OTHER acc) tbl\<rparr>)"
  using assms
proof (induction tbl arbitrary: acc)
  case Nil
  then show ?case by (simp add: by_path_def)
next
  case (Cons x tbl)
  obtain c i where x: "x = (c, i)" by (cases x)
  from Cons.prems x have cl: "clean_field c" "clean_field (path i)" by auto
  have pl: "split_tab (strip (''OTHER'' @ [CHR 0x09] @ c @ [CHR 0x09] @ path i @ [CHR 0x0A]))
            = [''OTHER'', c, path i]"
    by (rule parse_line[OF cl]) (simp_all add: is_space_def)
  from Cons.prems have "\<forall>(c, i) \<in> set tbl. clean_field c \<and> clean_field (path i)" by simp
  from Cons.IH[OF this, of "acc\<lparr>OTHER := dict_set (path i) c (OTHER acc)\<rparr>"] pl x
  show ?case by (simp add: by_path_def)
qed

lemma load_saved:
  assumes "\<forall>(c, i) \<in> set bt. clean_field c \<and> clean_field (path i)"
    and "\<forall>(c, i) \<in> set ot. clean_field c \<and> clean_field (path i)"
  shows "load_existing_checksums (save_checksums bt ot)
         = Inr \<lparr>BASE = by_path [] bt, OTHER = by_path [] ot\<rparr>"
  using load_base_lines[OF assms(1)] load_other_lines[OF assms(2), of "[]"]
  by (simp add: load_existing_checksums_def save_checksums_def)

lemma checksum_pass_table:
  "\<forall>f \<in> set files. file_checksum disk xxh sk ex f = Inr (dg f) \<Longrightarrow>
   checksum_pass disk xxh sk ex files (t, h)
   = Inr (pass_table dg t files, h @ map snd (filter (hashes_file sk ex) files))"
proof (induction files arbitrary: t h)
  case Nil
  then show ?case by (simp add: pass_table_def)
next
  case (Cons f files)
  from Cons.prems have c: "file_checksum disk xxh sk ex f = Inr (dg f)" by simp
  from Cons.prems have r: "\<forall>f \<in> set files. file_checksum disk xxh sk ex f = Inr (dg f)" by simp
  show ?case
    by (cases "hashes_file sk ex f") (simp_all add: c Cons.IH[OF r] pass_table_def)
qed

lemma set_dict_set: "set (dict_set k v al) \<subseteq> insert (k, v) (set al)"
  by (induction al) (auto split: if_splits)

lemma set_pass_table:
  "set (pass_table dg t files) \<subseteq> set t \<union> (\<lambda>f. (dg f, entry_of f)) ` set files"
proof (induction files arbitrary: t)
  case Nil
  then show ?case by (simp add: pass_table_def)
next
  case (Cons f files)
  have "set (pass_table dg (dict_set (dg f) (entry_of f) t) files)
        \<subseteq> set (dict_set (dg f) (entry_of f) t) \<union> (\<lambda>f. (dg f, entry_of f)) ` set files"
    by (rule Cons.IH)
  with set_dict_set[of "dg f" "entry_of f" t] show ?case
    by (auto simp: pass_table_def)
qed

lemma set_by_path:
  "set (by_path acc tbl) \<subseteq> set acc \<union> (\<lambda>(c, i). (path i, c)) ` set tbl"
proof (induction tbl arbitrary: acc)
  case Nil
  then show ?case by (simp add: by_path_def)
next
  case (Cons x tbl)
  obtain c i where x: "x = (c, i)" by (cases x)
  have "set (by_path (dict_set (path i) c acc) tbl)
        \<subseteq> set (dict_set (path i) c acc) \<union> (\<lambda>(c, i). (path i, c)) ` set tbl"
    by (rule Cons.IH)
  with set_dict_set[of "path i" c acc] x show ?case
    by (auto simp: by_path_def)
qed

lemma keys_by_path:
  "fst ` set (by_path acc tbl) = fst ` set acc \<union> (\<lambda>(c, i). path i) ` set tbl"
proof (induction tbl arbitrary: acc)
  case Nil
  then show ?case by (simp add: by_path_def)
next
  case (Cons x tbl)
  obtain c i where x: "x = (c, i)" by (cases x)
  have "fst ` set (by_path (dict_set (path i) c acc) tbl)
        = fst ` set (dict_set (path i) c acc) \<union> (\<lambda>(c, i). path i) ` set tbl"
    by (rule Cons.IH)
  with x show ?case by (auto simp: by_path_def keys_dict_set)
qed

lemma reused_digest:
  assumes d: "distinct (map fst files)" and f: "f \<in> set files"
    and m: "map_of (by_path [] (pass_table dg [] files)) (fst f) = Some c"
  shows "c = dg f"
proof -
  from m have "(fst f, c) \<in> set (by_path [] (pass_table dg [] files))" by (rule map_of_SomeD)
  with set_by_path[of "[]" "pass_table dg [] files"]
  obtain c' i where ci: "(c', i) \<in> set (pass_table dg [] files)" "path i = fst f" "c' = c"
    by auto
  with set_pass_table[of dg "[]" files] obtain g where g: "g \<in> set files" "c' = dg g" "i = entry_of g"
    by auto
  from ci(2) g(3) have "fst g = fst f" by (simp add: entry_of_def)
  with d f g(1) have "g = f" by (meson distinct_map inj_onD)
  with g(2) ci(3) show ?thesis by simp
qed

lemma second_run_digest:
  assumes d: "distinct (map fst files)" and f: "f \<in> set files"
    and r: "file_checksum disk xxh True [] f = Inr (dg f)"
  shows "file_checksum disk xxh True (by_path [] (pass_table dg [] files)) f = Inr (dg f)"
proof (cases "map_of (by_path [] (pass_table dg [] files)) (fst f)")
  case None
  with r show ?thesis by (simp add: file_checksum_def)
next
  case (Some c)
  with reused_digest[OF d f Some] show ?thesis by (simp add: file_checksum_def)
qed

lemma second_run_hashes:
  "hashes_file True (by_path [] tbl) f = (fst f \<notin> path ` snd ` set tbl)"
proof -
  have "(map_of (by_path [] tbl) (fst f) = None) = (fst f \<notin> fst ` set (by_path [] tbl))"
    by (simp add: map_of_eq_None_iff)
  also have "\<dots> = (fst f \<notin> (\<lambda>(c, i). path i) ` set tbl)" by (simp add: keys_by_path)
  also have "(\<lambda>(c, i). path i) ` set tbl = path ` snd ` set tbl" by force
  finally show ?thesis by (simp add: hashes_file_def)
qed

lemma pass_table_all:
  "distinct files \<Longrightarrow> inj_on dg (set files) \<Longrightarrow> fst ` set t \<inter> dg ` set files = {} \<Longrightarrow>
   set (pass_table dg t files) = set t \<union> (\<lambda>f. (dg f, entry_of f)) ` set files"
proof (induction files arbitrary: t)
  case Nil
  then show ?case by (simp add: pass_table_def)
next
  case (Cons f files)
  from Cons.prems(3) have fresh: "dg f \<notin> fst ` set t" by auto
  then have ds: "dict_set (dg f) (entry_of f) t = t @ [(dg f, entry_of f)]"
    by (rule dict_set_fresh)
  from Cons.prems(1) have d: "distinct files" and nf: "f \<notin> set files" by simp_all
  from Cons.prems(2) have i: "inj_on dg (set files)" by (simp add: inj_on_def)
  from Cons.prems(2) nf have "dg f \<notin> dg ` set files" by (auto simp: inj_on_def)
  with Cons.prems(3) have k: "fst ` set (t @ [(dg f, entry_of f)]) \<inter> dg ` set files = {}" by auto
  from Cons.IH[OF d i k] show ?case by (auto simp: pass_table_def ds)
qed

lemma fresh_digest:
  "disk (snd f) \<noteq> None \<Longrightarrow> file_checksum disk xxh True [] f = Inr (disk_digest disk xxh f)"
  by (auto simp: file_checksum_def compute_xxhash64_def disk_digest_def)

lemma first_pass:
  assumes "list_all (\<lambda>f. disk (snd f) \<noteq> None) files"
  shows "checksum_pass disk xxh True [] files ([], h)
         = Inr (pass_table (disk_digest disk xxh) [] files, h @ map snd files)"
proof -
  from assms have "\<forall>f \<in> set files. file_checksum disk xxh True [] f = Inr (disk_digest disk xxh f)"
    by (simp add: list_all_iff fresh_digest)
  from checksum_pass_table[OF this, of "[]" h] show ?thesis
    by (simp add: hashes_file_def)
qed

lemma second_pass:
  assumes r: "list_all (\<lambda>f. disk (snd f) \<noteq> None) files" and d: "distinct (map fst files)"
  shows "checksum_pass disk xxh True (by_path [] (pass_table (disk_digest disk xxh) [] files)) files
           ([], h)
         = Inr (pass_table (disk_digest disk xxh) [] files,
                h @ map snd (filter
                  (\<lambda>f. fst f \<notin> path ` snd ` set (pass_table (disk_digest disk xxh) [] files)) files))"
proof -
  let ?dg = "disk_digest disk xxh"
  let ?E = "by_path [] (pass_table ?dg [] files)"
  have "\<forall>f \<in> set files. file_checksum disk xxh True ?E f = Inr (?dg f)"
  proof
    fix f assume f: "f \<in> set files"
    with r have "disk (snd f) \<noteq> None" by (simp add: list_all_iff)
    then have "file_checksum disk xxh True [] f = Inr (?dg f)" by (rule fresh_digest)
    with d f show "file_checksum disk xxh True ?E f = Inr (?dg f)" by (rule second_run_digest)
  qed
  have "hashes_file True ?E
        = (\<lambda>f. fst f \<notin> path ` snd ` set (pass_table ?dg [] files))"
    by (rule ext) (rule second_run_hashes)
  with checksum_pass_table[OF \<open>\<forall>f \<in> set files. file_checksum disk xxh True ?E f = Inr (?dg f)\<close>,
      of "[]" h]
  show ?thesis by simp
qed

lemma pass_table_clean:
  assumes r: "list_all (\<lambda>f. disk (snd f) \<noteq> None) files"
    and p: "list_all (\<lambda>f. clean_field (fst f)) files"
    and x: "\<forall>bytes. clean_field (xxh bytes)"
  shows "\<forall>(c, i) \<in> set (pass_table (disk_digest disk xxh) [] files).
           clean_field c \<and> clean_field (path i)"
proof -
  have "\<And>c i. (c, i) \<in> set (pass_table (disk_digest disk xxh) [] files) \<Longrightarrow>
          clean_field c \<and> clean_field (path i)"
  proof -
    fix c i assume "(c, i) \<in> set (pass_table (disk_digest disk xxh) [] files)"
    with set_pass_table[of "disk_digest disk xxh" "[]" files]
    obtain f where f: "f \<in> set files" "c = disk_digest disk xxh f" "i = entry_of f" by auto
    from r f(1) obtain bytes where "disk (snd f) = Some bytes" by (auto simp: list_all_iff)
    with f(2) x have "clean_field c" by (simp add: disk_digest_def)
    moreover from p f(1,3) have "clean_field (path i)" by (simp add: list_all_iff entry_of_def)
    ultimately show "clean_field c \<and> clean_field (path i)" by simp
  qed
  then show ?thesis by auto
qed

lemma nothing_displaced:
  assumes r: "list_all (\<lambda>f. disk (snd f) \<noteq> None) files" and d: "distinct (map fst files)"
    and i: "inj_on (\<lambda>f. compute_xxhash64 disk xxh (snd f)) (set files)"
  shows "filter (\<lambda>f. fst f \<notin> path ` snd ` set (pass_table (disk_digest disk xxh) [] files)) files = []"
proof -
  let ?dg = "disk_digest disk xxh"
  have e: "compute_xxhash64 disk xxh (snd f) = Inr (?dg f)" if "f \<in> set files" for f
  proof -
    from r that obtain bytes where "disk (snd f) = Some bytes" by (auto simp: list_all_iff)
    then show ?thesis by (simp add: compute_xxhash64_def disk_digest_def)
  qed
  have inj: "inj_on ?dg (set files)"
  proof (rule inj_onI)
    fix f g assume f: "f \<in> set files" and g: "g \<in> set files" and h: "?dg f = ?dg g"
    from e[OF f] e[OF g] h
    have "compute_xxhash64 disk xxh (snd f) = compute_xxhash64 disk xxh (snd g)" by simp
    from inj_onD[OF i this f g] show "f = g" .
  qed
  from d have df: "distinct files" by (simp add: distinct_map)
  have st: "set (pass_table ?dg [] files) = set [] \<union> (\<lambda>f. (?dg f, entry_of f)) ` set files"
    by (rule pass_table_all[OF df inj]) simp
  have mem: "fst f \<in> path ` snd ` set (pass_table ?dg [] files)" if "f \<in> set files" for f
  proof -
    from that st have "(?dg f, entry_of f) \<in> set (pass_table ?dg [] files)" by blast
    then have "snd (?dg f, entry_of f) \<in> snd ` set (pass_table ?dg [] files)" by (rule imageI)
    then have "entry_of f \<in> snd ` set (pass_table ?dg [] files)" by simp
    then have "path (entry_of f) \<in> path ` snd ` set (pass_table ?dg [] files)" by (rule imageI)
    then show ?thesis by (simp add: entry_of_def)
  qed
  show ?thesis unfolding filter_empty_conv using mem by blast
qed

text \<open>
  Claim C7, amended. Take trees whose files can be read and whose relative paths are
  distinct within a tree and survive the line format, and digests that survive it. A first
  run without a checksum file hashes every file. A second run over the unchanged trees,
  with the first run's tables saved and loaded, returns the same tables and counts, and
  hashes exactly the files whose path is not in the first run's table of their tree (the
  files displaced by a later file of the same digest). When no two files of a tree have
  the same digest, the second run hashes nothing.
\<close>

theorem reuse_second_run:
  assumes r: "list_all (\<lambda>f. disk (snd f) \<noteq> None) (base_files @ other_files)"
    and p: "list_all (\<lambda>f. clean_field (fst f)) (base_files @ other_files)"
    and x: "\<forall>bytes. clean_field (xxh bytes)"
    and db: "distinct (map fst base_files)" and dother: "distinct (map fst other_files)"
  shows "(case calculate_checksums disk xxh base_files other_files None True of
            Inl e \<Rightarrow> False
          | Inr (base_checksums, other_checksums, total_base, total_other, hashed) \<Rightarrow>
              hashed = map snd base_files @ map snd other_files
            \<and> calculate_checksums disk xxh base_files other_files
                 (Some (save_checksums base_checksums other_checksums)) True
              = Inr (base_checksums, other_checksums, total_base, total_other,
                     map snd (filter (\<lambda>f. fst f \<notin> path ` snd ` set base_checksums) base_files)
                     @ map snd (filter (\<lambda>f. fst f \<notin> path ` snd ` set other_checksums)
                                  other_files))
            \<and> (inj_on (\<lambda>f. compute_xxhash64 disk xxh (snd f)) (set base_files)
               \<and> inj_on (\<lambda>f. compute_xxhash64 disk xxh (snd f)) (set other_files)
               \<longrightarrow> calculate_checksums disk xxh base_files other_files
                     (Some (save_checksums base_checksums other_checksums)) True
                   = Inr (base_checksums, other_checksums, total_base, total_other, [])))"
proof -
  let ?dg = "disk_digest disk xxh"
  let ?B = "pass_table ?dg [] base_files" and ?O = "pass_table ?dg [] other_files"
  from r have rb: "list_all (\<lambda>f. disk (snd f) \<noteq> None) base_files"
    and ro: "list_all (\<lambda>f. disk (snd f) \<noteq> None) other_files" by simp_all
  from p have pb: "list_all (\<lambda>f. clean_field (fst f)) base_files"
    and po: "list_all (\<lambda>f. clean_field (fst f)) other_files" by simp_all
  have first: "calculate_checksums disk xxh base_files other_files None True
        = Inr (?B, ?O, int (length base_files), int (length other_files),
               map snd base_files @ map snd other_files)"
    by (simp add: calculate_checksums_def first_pass[OF rb] first_pass[OF ro])
  have ld: "load_existing_checksums (save_checksums ?B ?O)
            = Inr \<lparr>BASE = by_path [] ?B, OTHER = by_path [] ?O\<rparr>"
    by (rule load_saved[OF pass_table_clean[OF rb pb x] pass_table_clean[OF ro po x]])
  have second: "calculate_checksums disk xxh base_files other_files
                  (Some (save_checksums ?B ?O)) True
        = Inr (?B, ?O, int (length base_files), int (length other_files),
               map snd (filter (\<lambda>f. fst f \<notin> path ` snd ` set ?B) base_files)
               @ map snd (filter (\<lambda>f. fst f \<notin> path ` snd ` set ?O) other_files))"
    by (simp add: calculate_checksums_def ld second_pass[OF rb db] second_pass[OF ro dother])
  have zero: "inj_on (\<lambda>f. compute_xxhash64 disk xxh (snd f)) (set base_files)
               \<and> inj_on (\<lambda>f. compute_xxhash64 disk xxh (snd f)) (set other_files)
      \<longrightarrow> calculate_checksums disk xxh base_files other_files (Some (save_checksums ?B ?O)) True
        = Inr (?B, ?O, int (length base_files), int (length other_files), [])"
    using second nothing_displaced[OF rb db] nothing_displaced[OF ro dother] by simp
  from second zero show ?thesis by (simp add: first)
qed

theorem reuse_second_run_witness:
  "calculate_checksums
      (map_of [(''/b/a'', ''x''), (''/o/c'', ''y''), (''/o/e'', ''x'')])
      (\<lambda>bytes. if bytes = ''x'' then ''d1'' else ''d2'')
      [(''a'', ''/b/a'')] [(''c'', ''/o/c''), (''e'', ''/o/e'')] None True
    = Inr ([(''d1'', \<lparr>path = ''a'', abs_path = Some ''/b/a''\<rparr>)],
           [(''d2'', \<lparr>path = ''c'', abs_path = Some ''/o/c''\<rparr>),
            (''d1'', \<lparr>path = ''e'', abs_path = Some ''/o/e''\<rparr>)],
           1, 2, [''/b/a'', ''/o/c'', ''/o/e''])
   \<and> calculate_checksums
      (map_of [(''/b/a'', ''x''), (''/o/c'', ''y''), (''/o/e'', ''x'')])
      (\<lambda>bytes. if bytes = ''x'' then ''d1'' else ''d2'')
      [(''a'', ''/b/a'')] [(''c'', ''/o/c''), (''e'', ''/o/e'')]
      (Some (save_checksums [(''d1'', \<lparr>path = ''a'', abs_path = Some ''/b/a''\<rparr>)]
               [(''d2'', \<lparr>path = ''c'', abs_path = Some ''/o/c''\<rparr>),
                (''d1'', \<lparr>path = ''e'', abs_path = Some ''/o/e''\<rparr>)])) True
    = Inr ([(''d1'', \<lparr>path = ''a'', abs_path = Some ''/b/a''\<rparr>)],
           [(''d2'', \<lparr>path = ''c'', abs_path = Some ''/o/c''\<rparr>),
            (''d1'', \<lparr>path = ''e'', abs_path = Some ''/o/e''\<rparr>)],
           1, 2, [])"
proof -
  let ?D = "map_of [(''/b/a'', ''x''), (''/o/c'', ''y''), (''/o/e'', ''x'')]"
  let ?X = "\<lambda>bytes. if bytes = ''x'' then ''d1'' else ''d2''"
  let ?B = "[(''a'', ''/b/a'')]"
  let ?O = "[(''c'', ''/o/c''), (''e'', ''/o/e'')]"
  have r: "list_all (\<lambda>f. ?D (snd f) \<noteq> None) (?B @ ?O)" by simp
  have p: "list_all (\<lambda>f. clean_field (fst f)) (?B @ ?O)"
    by (simp add: clean_field_def is_space_def)
  have x: "\<forall>bytes. clean_field (?X bytes)"
    by (simp add: clean_field_def is_space_def)
  have db: "distinct (map fst ?B)" by simp
  have dother: "distinct (map fst ?O)" by simp
  have first: "calculate_checksums ?D ?X ?B ?O None True
    = Inr ([(''d1'', \<lparr>path = ''a'', abs_path = Some ''/b/a''\<rparr>)],
           [(''d2'', \<lparr>path = ''c'', abs_path = Some ''/o/c''\<rparr>),
            (''d1'', \<lparr>path = ''e'', abs_path = Some ''/o/e''\<rparr>)],
           1, 2, [''/b/a'', ''/o/c'', ''/o/e''])"
    by code_simp
  have ib: "inj_on (\<lambda>f. compute_xxhash64 ?D ?X (snd f)) (set ?B)" by simp
  have io: "inj_on (\<lambda>f. compute_xxhash64 ?D ?X (snd f)) (set ?O)"
    by (simp add: compute_xxhash64_def)
  from reuse_second_run[OF r p x db dother] ib io
  have "calculate_checksums ?D ?X ?B ?O
      (Some (save_checksums [(''d1'', \<lparr>path = ''a'', abs_path = Some ''/b/a''\<rparr>)]
               [(''d2'', \<lparr>path = ''c'', abs_path = Some ''/o/c''\<rparr>),
                (''d1'', \<lparr>path = ''e'', abs_path = Some ''/o/e''\<rparr>)])) True
    = Inr ([(''d1'', \<lparr>path = ''a'', abs_path = Some ''/b/a''\<rparr>)],
           [(''d2'', \<lparr>path = ''c'', abs_path = Some ''/o/c''\<rparr>),
            (''d1'', \<lparr>path = ''e'', abs_path = Some ''/o/e''\<rparr>)],
           1, 2, [])"
    unfolding first by simp
  with first show ?thesis by blast
qed

end
